theory Spec2Isabelle
  imports
    Complex_Main
    "HOL-Library.AList"
    "HOL-Library.Char_ord"
    "HOL-Library.List_Lexorder"
    "HOL-Library.Sublist"
begin

section \<open>Data model of main\_viz.js\<close>

text \<open>
  A JavaScript object that maps category names to counts is an association list in the
  object's own key order: \<^verbatim>\<open>o[k] = v\<close> overwrites the value of an existing key in
  place and appends a new key at the end, which is \<^const>\<open>AList.update\<close>. The keys
  are category names, not array indices, so \<^verbatim>\<open>Object.entries\<close> lists them in this order.
  Counts are JSON integers, so \<^verbatim>\<open>Number(c || 0)\<close> is the count itself, and JavaScript
  numbers are read as integers (counts, years) or reals (ratios, angles, opacities).
  Strings are compared as lists of characters, which is JavaScript's order on ASCII names.
\<close>

type_synonym counts = "(string \<times> int) list"

text \<open>
  The raw yearly tables are keyed by strings. A key is kept as the number that
  \<^verbatim>\<open>Number(key)\<close> gives, \<open>None\<close> when that is \<^verbatim>\<open>NaN\<close>; numeric keys are taken to be
  written in canonical decimal form, so that \<^verbatim>\<open>String(year)\<close> finds them.
\<close>

type_synonym yearly_table = "(int option \<times> counts) list"

type_synonym year_cache = "(int \<times> counts) list"

datatype jsnum = Num int | NaN

datatype mode = Year | Entire

record author_cache =
  cache_year :: year_cache
  cache_entire :: year_cache
  cache_sankeyYear :: year_cache
  cache_sankeyEntire :: year_cache

record author =
  author_id :: string
  name :: string
  family_name :: string
  institution :: string
  hindex :: jsnum
  i10index :: jsnum
  works_count :: jsnum
  cited_by_count :: jsnum
  yearly :: yearly_table
  yearly_fields :: yearly_table
  cache :: "author_cache option"

text \<open>\<^verbatim>\<open>o[k] || {}\<close> on a year-keyed object and \<^verbatim>\<open>o[k] || 0\<close> on a counts object.\<close>

definition objAt :: "year_cache \<Rightarrow> int \<Rightarrow> counts" where
  "objAt tbl y = (case map_of tbl y of None \<Rightarrow> [] | Some cs \<Rightarrow> cs)"

definition countAt :: "counts \<Rightarrow> string \<Rightarrow> int" where
  "countAt cs k = (case map_of cs k of None \<Rightarrow> 0 | Some v \<Rightarrow> v)"

section \<open>Temporal aggregation cache\<close>

text \<open>
  The inner loop of the per-year build:
  \<^verbatim>\<open>for (const [sf, c] of Object.entries(sfObj || {})) a._cache.year[y][sf] = Number(c || 0);\<close>
\<close>

fun copyCounts :: "counts \<Rightarrow> counts \<Rightarrow> counts" where
  "copyCounts [] out = out"
| "copyCounts ((sf, c) # rest) out = copyCounts rest (AList.update sf c out)"

text \<open>
  The outer loop: keys that are not numbers are skipped, and each numeric year starts from
  a fresh object (\<^verbatim>\<open>a._cache.year[y] = {}\<close>).
\<close>

fun buildYear :: "yearly_table \<Rightarrow> year_cache \<Rightarrow> year_cache" where
  "buildYear [] tbl = tbl"
| "buildYear ((None, sfObj) # rest) tbl = buildYear rest tbl"
| "buildYear ((Some y, sfObj) # rest) tbl =
     buildYear rest (AList.update y (copyCounts sfObj []) tbl)"

text \<open>\<^verbatim>\<open>running[sf] = (running[sf] || 0) + Number(val || 0)\<close> for every entry of one year.\<close>

fun addCounts :: "counts \<Rightarrow> counts \<Rightarrow> counts" where
  "addCounts running [] = running"
| "addCounts running ((sf, val) # rest) =
     addCounts (AList.update sf (countAt running sf + val) running) rest"

text \<open>
  The cumulative build walks the sorted years, adds the year's counts to the running
  object and stores a copy of it under the year.
\<close>

fun buildEntire :: "year_cache \<Rightarrow> int list \<Rightarrow> counts \<Rightarrow> year_cache \<Rightarrow> year_cache" where
  "buildEntire tbl [] running ent = ent"
| "buildEntire tbl (y # ys) running ent =
     (let running' = addCounts running (objAt tbl y)
      in buildEntire tbl ys running' (AList.update y running' ent))"

definition yearsSorted :: "year_cache \<Rightarrow> int list" where
  "yearsSorted tbl = sort (map fst tbl)"

definition cumulative :: "year_cache \<Rightarrow> year_cache" where
  "cumulative tbl = buildEntire tbl (yearsSorted tbl) [] []"

definition buildCache :: "author \<Rightarrow> author_cache" where
  "buildCache a =
     (let yr = buildYear (yearly a) [];
          sk = buildYear (yearly_fields a) []
      in \<lparr> cache_year = yr, cache_entire = cumulative yr,
           cache_sankeyYear = sk, cache_sankeyEntire = cumulative sk \<rparr>)"

text \<open>The body of \<^verbatim>\<open>authorsRaw.forEach(a => { a._cache = ... })\<close> for one author.\<close>

definition precompute :: "author \<Rightarrow> author" where
  "precompute a = a\<lparr> cache := Some (buildCache a) \<rparr>"

text \<open>The numeric years of the author's subfield table.\<close>

definition tableYears :: "author \<Rightarrow> int set" where
  "tableYears a = set (List.map_filter fst (yearly a))"

section \<open>Classification engine\<close>

text \<open>
  \<^verbatim>\<open>Math.max(...years)\<close> is only reached for a non-empty list; the greatest cached year
  not after the query is looked up.
\<close>

definition closestYear :: "year_cache \<Rightarrow> int \<Rightarrow> int option" where
  "closestYear tbl year =
     (case filter (\<lambda>y. y \<le> year) (map fst tbl) of
        [] \<Rightarrow> None
      | y # ys \<Rightarrow> Some (fold max ys y))"

definition countsFor :: "author \<Rightarrow> int \<Rightarrow> mode \<Rightarrow> counts" where
  "countsFor a year m =
     (case cache a of
        None \<Rightarrow> []
      | Some c \<Rightarrow>
          (case m of
             Year \<Rightarrow> objAt (cache_year c) year
           | Entire \<Rightarrow>
               (case closestYear (cache_entire c) year of
                  None \<Rightarrow> []
                | Some maxYear \<Rightarrow> objAt (cache_entire c) maxYear)))"

text \<open>
  \<^verbatim>\<open>countsForFields\<close> reads the raw field-pair table. In \<^verbatim>\<open>entire\<close> mode only the keys
  with \<^verbatim>\<open>+y > year\<close> are skipped, so a key that is not a number is summed in as well.
\<close>

fun aggFields :: "yearly_table \<Rightarrow> int \<Rightarrow> counts \<Rightarrow> counts" where
  "aggFields [] year agg = agg"
| "aggFields ((None, pairs) # rest) year agg = aggFields rest year (addCounts agg pairs)"
| "aggFields ((Some y, pairs) # rest) year agg =
     (if y > year then aggFields rest year agg
      else aggFields rest year (addCounts agg pairs))"

definition countsForFields :: "author \<Rightarrow> int \<Rightarrow> mode \<Rightarrow> counts" where
  "countsForFields a year m =
     (case m of
        Year \<Rightarrow> (case map_of (yearly_fields a) (Some year) of None \<Rightarrow> [] | Some ps \<Rightarrow> ps)
      | Entire \<Rightarrow> aggFields (yearly_fields a) year [])"

definition interdisciplinarity :: "author \<Rightarrow> int \<Rightarrow> mode \<Rightarrow> real" where
  "interdisciplinarity a year m =
     (let cs = countsFor a year m;
          vals = filter (\<lambda>v. v > 0) (map snd cs)
      in case vals of
           [] \<Rightarrow> 0
         | v # vs \<Rightarrow> 1 - real_of_int (fold max vs v) / real_of_int (sum_list vals))"

datatype field_type = Subfield | External

text \<open>\<^verbatim>\<open>authors.forEach\<close> of \<^verbatim>\<open>groupInterdisciplinarity\<close>, filling \<^verbatim>\<open>aggCounts\<close>.\<close>

fun aggCountsLoop :: "field_type \<Rightarrow> int \<Rightarrow> mode \<Rightarrow> author list \<Rightarrow> counts \<Rightarrow> counts" where
  "aggCountsLoop ft year m [] aggCounts = aggCounts"
| "aggCountsLoop ft year m (a # rest) aggCounts =
     aggCountsLoop ft year m rest
       (addCounts aggCounts
          (if ft = Subfield then countsFor a year m else countsForFields a year m))"

definition groupInterdisciplinarity ::
  "author list \<Rightarrow> int \<Rightarrow> mode \<Rightarrow> field_type \<Rightarrow> real" where
  "groupInterdisciplinarity authors year m ft =
     (let aggCounts = aggCountsLoop ft year m authors [];
          vals = filter (\<lambda>v. v > 0) (map snd aggCounts)
      in case vals of
           [] \<Rightarrow> 0
         | v # vs \<Rightarrow> 1 - real_of_int (fold max vs v) / real_of_int (sum_list vals))"

text \<open>The loop of \<^verbatim>\<open>mainSubfieldFor\<close> over the entries, carrying \<^verbatim>\<open>best\<close>.\<close>

fun bestLoop :: "counts \<Rightarrow> string \<times> int \<Rightarrow> string \<times> int" where
  "bestLoop [] best = best"
| "bestLoop ((sf, cnt) # rest) best =
     (if cnt > snd best \<or> (cnt = snd best \<and> sf < fst best)
      then bestLoop rest (sf, cnt)
      else bestLoop rest best)"

definition mainSubfieldFor :: "author \<Rightarrow> int \<Rightarrow> mode \<Rightarrow> string" where
  "mainSubfieldFor a year m = fst (bestLoop (countsFor a year m) (''Unknown'', 0))"

definition isActiveBy :: "author \<Rightarrow> int \<Rightarrow> mode \<Rightarrow> bool" where
  "isActiveBy a year m = list_ex (\<lambda>v. v > 0) (map snd (countsFor a year m))"

section \<open>Cluster layout\<close>

text \<open>\<^verbatim>\<open>present\<close> is a JavaScript \<^verbatim>\<open>Set\<close>: a list without repetitions in insertion order.\<close>

fun addPresent :: "counts \<Rightarrow> string list \<Rightarrow> string list" where
  "addPresent [] present = present"
| "addPresent ((sf, cnt) # rest) present =
     (if cnt > 0
      then addPresent rest (if sf \<in> set present then present else present @ [sf])
      else addPresent rest present)"

fun presentLoop :: "author list \<Rightarrow> int \<Rightarrow> mode \<Rightarrow> string list \<Rightarrow> string list" where
  "presentLoop [] year m present = present"
| "presentLoop (a # rest) year m present =
     presentLoop rest year m (addPresent (countsFor a year m) present)"

definition computeVisibleSubfields :: "author list \<Rightarrow> int \<Rightarrow> mode \<Rightarrow> string list" where
  "computeVisibleSubfields filteredAuthors year m = sort (presentLoop filteredAuthors year m [])"

record center =
  center_x :: real
  center_y :: real
  center_angle :: real

type_synonym center_map = "(string \<times> center) list"

text \<open>
  \<^verbatim>\<open>visibleSubfields.forEach((sf, i) => ...)\<close> of \<^verbatim>\<open>setYear\<close>: \<open>n\<close> is
  \<^verbatim>\<open>visibleSubfields.length\<close> and \<open>i\<close> the running index.
\<close>

fun centersLoop ::
  "real \<Rightarrow> real \<Rightarrow> real \<Rightarrow> nat \<Rightarrow> nat \<Rightarrow> string list \<Rightarrow> center_map \<Rightarrow> center_map" where
  "centersLoop centerX centerY r n i [] ccm = ccm"
| "centersLoop centerX centerY r n i (sf # rest) ccm =
     (let angle = (real i / real n) * 2 * pi - pi / 2
      in centersLoop centerX centerY r n (Suc i) rest
           (AList.update sf
              \<lparr> center_x = centerX + r * cos angle,
                center_y = centerY + r * sin angle,
                center_angle = angle \<rparr> ccm))"

text \<open>
  The cluster-centre block of \<^verbatim>\<open>setYear\<close>. The drawing area \<open>innerW\<close>, \<open>innerH\<close> comes
  from common.js (1080 by 790 there) and is a parameter; \<^verbatim>\<open>centerX = innerW / 2\<close>,
  \<^verbatim>\<open>centerY = innerH / 2 - 40\<close> and \<^verbatim>\<open>r = Math.min(innerW, innerH) * 0.35\<close>.
\<close>

definition clusterCenterMap ::
  "real \<Rightarrow> real \<Rightarrow> author list \<Rightarrow> int \<Rightarrow> mode \<Rightarrow> center_map" where
  "clusterCenterMap innerW innerH filteredAuthors currentYear m =
     (let vs = computeVisibleSubfields filteredAuthors currentYear m;
          visibleSubfields = (if length vs = 0 then vs @ [''Unknown''] else vs);
          r = min innerW innerH * 0.35
      in centersLoop (innerW / 2) (innerH / 2 - 40) r (length visibleSubfields) 0
           visibleSubfields [])"

definition clusterKeys ::
  "real \<Rightarrow> real \<Rightarrow> author list \<Rightarrow> int \<Rightarrow> mode \<Rightarrow> string list" where
  "clusterKeys innerW innerH filteredAuthors currentYear m =
     map fst (clusterCenterMap innerW innerH filteredAuthors currentYear m)"

section \<open>Phantom edges\<close>

text \<open>A node of the force layout; its position belongs to the layout solver.\<close>

record node =
  node_id :: string
  node_author :: author

record phantom =
  ph_parent :: node
  ph_subfield :: string
  ph_count :: int
  ph_tx :: real
  ph_ty :: real

text \<open>The inner loop of \<^verbatim>\<open>computePhantomsForYear\<close>; the result lists the pushes in order.\<close>

fun phantomsOf :: "node \<Rightarrow> string \<Rightarrow> center_map \<Rightarrow> counts \<Rightarrow> phantom list" where
  "phantomsOf n main ccm [] = []"
| "phantomsOf n main ccm ((sf, cnt) # rest) =
     (if cnt > 0 \<and> sf \<noteq> main
      then (case map_of ccm sf of
              None \<Rightarrow> phantomsOf n main ccm rest
            | Some c \<Rightarrow>
                \<lparr> ph_parent = n, ph_subfield = sf, ph_count = cnt,
                  ph_tx = center_x c, ph_ty = center_y c \<rparr> # phantomsOf n main ccm rest)
      else phantomsOf n main ccm rest)"

fun computePhantomsForYear :: "node list \<Rightarrow> center_map \<Rightarrow> int \<Rightarrow> mode \<Rightarrow> phantom list" where
  "computePhantomsForYear [] ccm year m = []"
| "computePhantomsForYear (n # rest) ccm year m =
     (if \<not> isActiveBy (node_author n) year m then computePhantomsForYear rest ccm year m
      else phantomsOf n (mainSubfieldFor (node_author n) year m) ccm
             (countsFor (node_author n) year m)
           @ computePhantomsForYear rest ccm year m)"

text \<open>
  Modelled from the spec: \<^verbatim>\<open>d3.scaleLinear().domain([0, maxCount]).range([0.01, 0.30])\<close>
  is a primitive of the d3 library, which is not among the sources; the specification
  describes it as the linear map from \<open>[0, maxCount]\<close> to \<open>[0.01, 0.30]\<close>.
\<close>

definition opacityScale :: "real \<Rightarrow> real \<Rightarrow> real" where
  "opacityScale maxCount v = 0.01 + (v / maxCount) * (0.30 - 0.01)"

text \<open>
  \<^verbatim>\<open>updatePhantoms\<close>: the phantom data of the current year and, for each drawn line, its
  opacity. \<^verbatim>\<open>d3.max(counts)\<close> is only taken of a non-empty array.
\<close>

definition updatePhantoms ::
  "bool \<Rightarrow> node list \<Rightarrow> center_map \<Rightarrow> int \<Rightarrow> mode \<Rightarrow> phantom list \<times> (phantom \<times> real) list" where
  "updatePhantoms showPhantoms nodes ccm currentYear m =
     (let phantomData = computePhantomsForYear nodes ccm currentYear m;
          cnts = map ph_count phantomData;
          maxCount = (case cnts of [] \<Rightarrow> 1 | c # cs \<Rightarrow> fold max cs c);
          links = map (\<lambda>d. (d, opacityScale (real_of_int maxCount) (real_of_int (ph_count d))))
                    (if showPhantoms then phantomData else [])
      in (phantomData, links))"

section \<open>Flow aggregation (Sankey)\<close>

text \<open>
  The pairs of one author in \<^verbatim>\<open>updateSankey\<close>, read from \<^verbatim>\<open>author._sankeyPairs\<close>, the
  alias of the two Sankey tables of the cache.
\<close>

definition sankeyPairs :: "author \<Rightarrow> int \<Rightarrow> mode \<Rightarrow> counts" where
  "sankeyPairs a currentYear m =
     (case cache a of
        None \<Rightarrow> []
      | Some c \<Rightarrow>
          (case m of
             Year \<Rightarrow> objAt (cache_sankeyYear c) currentYear
           | Entire \<Rightarrow>
               (case closestYear (cache_sankeyEntire c) currentYear of
                  None \<Rightarrow> []
                | Some yy \<Rightarrow> objAt (cache_sankeyEntire c) yy)))"

text \<open>
  \<^verbatim>\<open>pairTotals\<close> is a JavaScript \<^verbatim>\<open>Map\<close>, which keeps insertion order as an object
  does; values that are not positive are skipped.
\<close>

fun addPositive :: "counts \<Rightarrow> counts \<Rightarrow> counts" where
  "addPositive pairTotals [] = pairTotals"
| "addPositive pairTotals ((pair, v) # rest) =
     (if v \<le> 0 then addPositive pairTotals rest
      else addPositive (AList.update pair (countAt pairTotals pair + v) pairTotals) rest)"

fun pairTotalsLoop :: "author list \<Rightarrow> int \<Rightarrow> mode \<Rightarrow> counts \<Rightarrow> counts" where
  "pairTotalsLoop [] currentYear m pairTotals = pairTotals"
| "pairTotalsLoop (a # rest) currentYear m pairTotals =
     pairTotalsLoop rest currentYear m (addPositive pairTotals (sankeyPairs a currentYear m))"

text \<open>
  \<^verbatim>\<open>String(pair).split('---')\<close>: the text is cut at every occurrence of the delimiter,
  scanning from the left; \<open>cur\<close> holds the current part reversed.
\<close>

fun splitDashes :: "string \<Rightarrow> string \<Rightarrow> string list" where
  "splitDashes cur (a # b # c # rest) =
     (if a = CHR ''-'' \<and> b = CHR ''-'' \<and> c = CHR ''-''
      then rev cur # splitDashes [] rest
      else splitDashes (a # cur) (b # c # rest))"
| "splitDashes cur (a # rest) = splitDashes (a # cur) rest"
| "splitDashes cur [] = [rev cur]"

record link =
  link_source :: string
  link_target :: string
  link_value :: int

fun buildLinks :: "counts \<Rightarrow> link list" where
  "buildLinks [] = []"
| "buildLinks ((pair, cnt) # rest) =
     (case splitDashes [] pair of
        subfield # field # others \<Rightarrow>
          \<lparr> link_source = subfield, link_target = field, link_value = cnt \<rparr> # buildLinks rest
      | _ \<Rightarrow> buildLinks rest)"

text \<open>\<^verbatim>\<open>nodesSet\<close> receives the subfield and then the field of every link.\<close>

definition setAdd :: "string \<Rightarrow> string list \<Rightarrow> string list" where
  "setAdd s xs = (if s \<in> set xs then xs else xs @ [s])"

fun nodesLoop :: "link list \<Rightarrow> string list \<Rightarrow> string list" where
  "nodesLoop [] nodesSet = nodesSet"
| "nodesLoop (l # rest) nodesSet =
     nodesLoop rest (setAdd (link_target l) (setAdd (link_source l) nodesSet))"

text \<open>\<^verbatim>\<open>nameToIndex.get(name)\<close>: the position of a name among the nodes.\<close>

fun nameToIndex :: "string list \<Rightarrow> string \<Rightarrow> nat option" where
  "nameToIndex [] s = None"
| "nameToIndex (x # xs) s =
     (if x = s then Some 0 else map_option Suc (nameToIndex xs s))"

record sankey_graph =
  sankey_nodes :: "string list"
  sankey_links :: "link list"
  sankey_indexed :: "(nat option \<times> nat option \<times> int) list"

text \<open>The state of the Sankey layer after \<^verbatim>\<open>selectAll("*").remove()\<close>: nothing is drawn.\<close>

definition cleared :: sankey_graph where
  "cleared = \<lparr> sankey_nodes = [], sankey_links = [], sankey_indexed = [] \<rparr>"

definition updateSankey :: "author list \<Rightarrow> int \<Rightarrow> mode \<Rightarrow> sankey_graph" where
  "updateSankey filteredAuthors currentYear m =
     (let pairTotals = pairTotalsLoop filteredAuthors currentYear m []
      in if pairTotals = [] then cleared
         else
           (let links = buildLinks pairTotals;
                nodes = nodesLoop links []
            in if links = [] then cleared
               else \<lparr> sankey_nodes = nodes, sankey_links = links,
                      sankey_indexed =
                        map (\<lambda>l. (nameToIndex nodes (link_source l),
                                  nameToIndex nodes (link_target l), link_value l)) links \<rparr>))"

section \<open>Filters\<close>

datatype cmp_op = Ge | Eq | Le

text \<open>
  A numeric filter box: \<open>Blank\<close> when its trimmed text is empty, otherwise the number that
  \<^verbatim>\<open>Number(numStr)\<close> gives, which is \<open>NaN\<close> for text that is not a number.
\<close>

datatype num_input = Blank | Typed jsnum

text \<open>JavaScript comparisons: every comparison with \<^verbatim>\<open>NaN\<close> is false.\<close>

fun js_ge :: "jsnum \<Rightarrow> jsnum \<Rightarrow> bool" where
  "js_ge (Num a) (Num b) = (a \<ge> b)"
| "js_ge _ _ = False"

fun js_le :: "jsnum \<Rightarrow> jsnum \<Rightarrow> bool" where
  "js_le (Num a) (Num b) = (a \<le> b)"
| "js_le _ _ = False"

fun js_eq :: "jsnum \<Rightarrow> jsnum \<Rightarrow> bool" where
  "js_eq (Num a) (Num b) = (a = b)"
| "js_eq _ _ = False"

text \<open>
  \<^verbatim>\<open>toLowerCase\<close> and \<^verbatim>\<open>includes\<close> as a substring test. Names are ASCII text here, as
  in the data model: only the letters \<open>A\<close> to \<open>Z\<close> are lowered, and the capitals outside
  ASCII that JavaScript also lowers are not covered.
\<close>

definition toLowerChar :: "char \<Rightarrow> char" where
  "toLowerChar c =
     (let n = (of_char c :: nat) in if 65 \<le> n \<and> n \<le> 90 then char_of (n + 32) else c)"

definition toLowerCase :: "string \<Rightarrow> string" where
  "toLowerCase s = map toLowerChar s"

definition includesStr :: "string \<Rightarrow> string \<Rightarrow> bool" where
  "includesStr s sub = list_ex (prefix sub) (suffixes s)"

record filters =
  nameSub :: string
  surnameSub :: string
  instSub :: string
  hOp :: cmp_op
  hNum :: num_input
  i10Op :: cmp_op
  i10Num :: num_input
  worksOp :: cmp_op
  worksNum :: num_input
  citedOp :: cmp_op
  citedNum :: num_input

text \<open>The loop over \<^verbatim>\<open>checks\<close>; \<open>False\<close> is the early \<^verbatim>\<open>return false\<close>.\<close>

fun checksLoop :: "(cmp_op \<times> jsnum \<times> num_input) list \<Rightarrow> bool" where
  "checksLoop [] = True"
| "checksLoop ((op, val, Blank) # rest) = checksLoop rest"
| "checksLoop ((op, val, Typed num) # rest) =
     (if op = Ge \<and> \<not> js_ge val num then False
      else if op = Le \<and> \<not> js_le val num then False
      else if op = Eq \<and> \<not> js_eq val num then False
      else checksLoop rest)"

text \<open>The callback of \<^verbatim>\<open>authorsRaw.filter\<close> in \<^verbatim>\<open>applyFilters\<close>.\<close>

definition keepAuthor :: "filters \<Rightarrow> author \<Rightarrow> bool" where
  "keepAuthor f a =
     (if nameSub f \<noteq> [] \<and> \<not> includesStr (toLowerCase (name a)) (nameSub f) then False
      else if surnameSub f \<noteq> [] \<and> \<not> includesStr (toLowerCase (family_name a)) (surnameSub f)
        then False
      else if instSub f \<noteq> [] \<and> \<not> includesStr (toLowerCase (institution a)) (instSub f)
        then False
      else checksLoop
             [(hOp f, hindex a, hNum f),
              (i10Op f, i10index a, i10Num f),
              (worksOp f, works_count a, worksNum f),
              (citedOp f, cited_by_count a, citedNum f)])"

definition applyFilters :: "filters \<Rightarrow> author list \<Rightarrow> author list" where
  "applyFilters f authorsRaw = filter (keepAuthor f) authorsRaw"

section \<open>Auxiliary predicates\<close>

text \<open>An author whose cache is the one the load loop builds from the author's tables.\<close>

definition cached :: "author \<Rightarrow> bool" where
  "cached a \<longleftrightarrow> cache a = Some (buildCache a)"

text \<open>Every object stored in a year-keyed table has distinct keys, as JavaScript objects do.\<close>

definition innerDistinct :: "year_cache \<Rightarrow> bool" where
  "innerDistinct tbl \<longleftrightarrow> (\<forall>e \<in> set tbl. distinct (map fst (snd e)))"

text \<open>
  The flow graph is bipartite between subfields and fields when no name is both the
  source of a link and the target of a link.
\<close>

definition bipartite :: "sankey_graph \<Rightarrow> bool" where
  "bipartite g \<longleftrightarrow>
     set (map link_source (sankey_links g)) \<inter> set (map link_target (sankey_links g)) = {}"

text \<open>The centre that \<^verbatim>\<open>setYear\<close> stores for index \<open>i\<close> of \<open>n\<close> visible subfields.\<close>

definition slot :: "real \<Rightarrow> real \<Rightarrow> real \<Rightarrow> nat \<Rightarrow> nat \<Rightarrow> center" where
  "slot centerX centerY r n i =
     \<lparr> center_x = centerX + r * cos ((real i / real n) * 2 * pi - pi / 2),
       center_y = centerY + r * sin ((real i / real n) * 2 * pi - pi / 2),
       center_angle = (real i / real n) * 2 * pi - pi / 2 \<rparr>"

section \<open>Sample data\<close>

text \<open>An author record with the given id and tables, no metrics and no cache yet.\<close>

definition rawAuthor :: "string \<Rightarrow> yearly_table \<Rightarrow> yearly_table \<Rightarrow> author" where
  "rawAuthor i ys fs =
     \<lparr> author_id = i, name = [], family_name = [], institution = [],
       hindex = NaN, i10index = NaN, works_count = NaN, cited_by_count = NaN,
       yearly = ys, yearly_fields = fs, cache = None \<rparr>"

text \<open>The author of the specification's scenario: AI 3 in 2020, AI 2 and Software 5 in 2021.\<close>

definition authorA :: author where
  "authorA = precompute (rawAuthor ''A1''
     [(Some 2020, [(''AI'', 3)]), (Some 2021, [(''AI'', 2), (''Software'', 5)])]
     [(Some 2020, [(''AI---CS'', 5), (''Software---CS'', 3)])])"

text \<open>An author whose only recorded count is zero.\<close>

definition authorZ :: author where
  "authorZ = precompute (rawAuthor ''A2'' [(Some 2020, [(''AI'', 0)])] [])"

text \<open>An author with all activity in one subfield.\<close>

definition authorS :: author where
  "authorS = precompute (rawAuthor ''A3'' [(Some 2020, [(''Software'', 10)])]
     [(Some 2020, [(''Software---CS'', 4), (''Loose'', 2)])])"

text \<open>An author with AI 20 and Software 10 in 2020.\<close>

definition authorB :: author where
  "authorB = precompute (rawAuthor ''A4'' [(Some 2020, [(''AI'', 20), (''Software'', 10)])] [])"

text \<open>An author with one field pair whose subfield and field carry the same name.\<close>

definition authorLoop :: author where
  "authorLoop = precompute (rawAuthor ''A5'' [] [(Some 2020, [(''CS---CS'', 1)])])"

text \<open>A node for an author, and a cluster-centre map with two subfields.\<close>

definition nodeOf :: "author \<Rightarrow> node" where
  "nodeOf a = \<lparr> node_id = author_id a, node_author = a \<rparr>"

definition sampleCenters :: center_map where
  "sampleCenters =
     [(''AI'', \<lparr> center_x = 0, center_y = 1, center_angle = 0 \<rparr>),
      (''Software'', \<lparr> center_x = 2, center_y = 3, center_angle = 0 \<rparr>)]"

text \<open>A filter panel with every box blank.\<close>

definition noFilters :: filters where
  "noFilters =
     \<lparr> nameSub = [], surnameSub = [], instSub = [],
       hOp = Ge, hNum = Blank, i10Op = Ge, i10Num = Blank,
       worksOp = Ge, worksNum = Blank, citedOp = Ge, citedNum = Blank \<rparr>"

section \<open>Facts about objects\<close>

lemma countAt_update: "countAt (AList.update k v cs) k' = (if k' = k then v else countAt cs k')"
  by (simp add: countAt_def update_conv')

lemma countAt_Cons: "countAt ((k, v) # cs) k' = (if k' = k then v else countAt cs k')"
  by (simp add: countAt_def)

lemma countAt_absent: "k \<notin> fst ` set cs \<Longrightarrow> countAt cs k = 0"
  by (simp add: countAt_def map_of_eq_None_iff[THEN iffD2])

lemma countAt_Nil: "countAt [] k = 0"
  by (simp add: countAt_def)

lemma countAt_nonneg: "\<forall>v \<in> snd ` set t. 0 < v \<Longrightarrow> 0 \<le> countAt t p"
  by (fastforce simp: countAt_def split: option.splits dest!: map_of_SomeD)

lemma countAt_ge0: "\<forall>v \<in> snd ` set cs. 0 \<le> v \<Longrightarrow> 0 \<le> countAt cs p"
  by (fastforce simp: countAt_def split: option.splits dest!: map_of_SomeD)

lemma set_update_subset: "set (AList.update k v t) \<subseteq> insert (k, v) (set t)"
  by (induction t) auto

lemma update_fresh: "k \<notin> fst ` set r \<Longrightarrow> AList.update k v r = r @ [(k, v)]"
  by (induction r) auto

lemma keys_copyCounts: "fst ` set (copyCounts cs out) = fst ` set out \<union> fst ` set cs"
  by (induction cs out rule: copyCounts.induct) (auto simp: dom_update)

lemma distinct_copyCounts:
  "distinct (map fst out) \<Longrightarrow> distinct (map fst (copyCounts cs out))"
  by (induction cs out rule: copyCounts.induct) (auto simp: distinct_update)

lemma distinct_addCounts:
  "distinct (map fst r) \<Longrightarrow> distinct (map fst (addCounts r cs))"
  by (induction r cs rule: addCounts.induct) (auto simp: distinct_update)

lemma countAt_addCounts:
  "distinct (map fst cs) \<Longrightarrow> countAt (addCounts r cs) k = countAt r k + countAt cs k"
proof (induction cs arbitrary: r)
  case Nil
  show ?case by (simp add: countAt_Nil)
next
  case (Cons e cs)
  obtain sf v where e: "e = (sf, v)" by (cases e)
  from Cons.prems e have d: "distinct (map fst cs)" and nin: "sf \<notin> fst ` set cs" by auto
  show ?case
    using Cons.IH[OF d, of "AList.update sf (countAt r sf + v) r"] countAt_absent[OF nin]
    by (simp add: e countAt_update countAt_Cons)
qed

lemma addCounts_fresh:
  "distinct (map fst cs) \<Longrightarrow> fst ` set r \<inter> fst ` set cs = {} \<Longrightarrow> addCounts r cs = r @ cs"
proof (induction cs arbitrary: r)
  case Nil
  show ?case by simp
next
  case (Cons e cs)
  obtain sf v where e: "e = (sf, v)" by (cases e)
  from Cons.prems e have nin: "sf \<notin> fst ` set r" and d: "distinct (map fst cs)"
    and dj: "fst ` set (r @ [(sf, v)]) \<inter> fst ` set cs = {}" by auto
  have "addCounts r (e # cs) = addCounts (r @ [(sf, v)]) cs"
    by (simp add: e update_fresh[OF nin] countAt_absent[OF nin])
  also have "\<dots> = (r @ [(sf, v)]) @ cs" by (rule Cons.IH[OF d dj])
  finally show ?case by (simp add: e)
qed

lemma addCounts_zero:
  "\<forall>v \<in> snd ` set r. v = 0 \<Longrightarrow> \<forall>v \<in> snd ` set cs. v = 0 \<Longrightarrow>
     \<forall>v \<in> snd ` set (addCounts r cs). v = 0"
proof (induction cs arbitrary: r)
  case Nil
  then show ?case by simp
next
  case (Cons e cs)
  obtain sf v where e: "e = (sf, v)" by (cases e)
  have v0: "v = 0" using Cons.prems(2) e by simp
  have c0: "countAt r sf = 0"
    using Cons.prems(1) by (auto simp: countAt_def split: option.splits dest!: map_of_SomeD)
  have "set (AList.update sf (0::int) r) \<subseteq> insert (sf, 0) (set r)"
    by (induction r) auto
  then have "\<forall>v \<in> snd ` set (AList.update sf (countAt r sf + v) r). v = 0"
    using Cons.prems(1) by (auto simp: c0 v0)
  from Cons.IH[OF this] Cons.prems(2) show ?case by (simp add: e)
qed

lemma fold_max_Max: "fold max vs (v::int) = Max (set (v # vs))"
  by (rule Max.set_eq_fold[symmetric])

lemma member_le_sum_list_int:
  "\<forall>x \<in> set xs. (0::int) \<le> x \<Longrightarrow> y \<in> set xs \<Longrightarrow> y \<le> sum_list xs"
proof (induction xs)
  case Nil
  then show ?case by simp
next
  case (Cons x xs)
  have "0 \<le> sum_list xs" using Cons.prems(1) by (simp add: sum_list_nonneg)
  then show ?case using Cons by auto
qed

lemma sum_list_max0:
  "\<forall>x \<in> set xs. (0::int) \<le> f x \<Longrightarrow> (\<Sum>x\<leftarrow>xs. max 0 (f x)) = (\<Sum>x\<leftarrow>xs. f x)"
  by (induction xs) auto

section \<open>Facts about the cache\<close>

lemma innerDistinct_Nil: "innerDistinct []"
  by (simp add: innerDistinct_def)

lemma innerDistinct_update:
  "innerDistinct tbl \<Longrightarrow> distinct (map fst cs) \<Longrightarrow> innerDistinct (AList.update y cs tbl)"
  unfolding innerDistinct_def
  by (induction tbl) auto

lemma innerDistinct_objAt: "innerDistinct tbl \<Longrightarrow> distinct (map fst (objAt tbl y))"
  unfolding innerDistinct_def objAt_def
  by (auto split: option.splits dest!: map_of_SomeD)

lemma innerDistinct_buildYear:
  "innerDistinct tbl \<Longrightarrow> innerDistinct (buildYear t tbl)"
  by (induction t tbl rule: buildYear.induct)
     (simp_all add: innerDistinct_update distinct_copyCounts)

lemma distinct_buildYear:
  "distinct (map fst tbl) \<Longrightarrow> distinct (map fst (buildYear t tbl))"
  by (induction t tbl rule: buildYear.induct) (auto simp: distinct_update)

lemma keys_buildYear:
  "fst ` set (buildYear t tbl) = fst ` set tbl \<union> set (List.map_filter fst t)"
  by (induction t tbl rule: buildYear.induct) (auto simp: dom_update List.map_filter_simps)

lemma buildEntire_other:
  "y \<notin> set ys \<Longrightarrow> map_of (buildEntire tbl ys r ent) y = map_of ent y"
  by (induction tbl ys r ent rule: buildEntire.induct) (auto simp: Let_def update_conv')

lemma keys_buildEntire:
  "fst ` set (buildEntire tbl ys r ent) = fst ` set ent \<union> set ys"
  by (induction tbl ys r ent rule: buildEntire.induct) (auto simp: Let_def dom_update)

lemma innerDistinct_buildEntire:
  "innerDistinct ent \<Longrightarrow> distinct (map fst r) \<Longrightarrow> innerDistinct (buildEntire tbl ys r ent)"
  by (induction tbl ys r ent rule: buildEntire.induct)
     (auto simp: Let_def intro!: innerDistinct_update distinct_addCounts)

lemma buildEntire_prefix:
  assumes "innerDistinct tbl"
  shows "sorted ys \<Longrightarrow> distinct ys \<Longrightarrow> y \<in> set ys \<Longrightarrow>
    countAt (objAt (buildEntire tbl ys r ent) y) k =
      countAt r k + (\<Sum>y' \<in> {y' \<in> set ys. y' \<le> y}. countAt (objAt tbl y') k)"
proof (induction ys arbitrary: r ent)
  case Nil
  then show ?case by simp
next
  case (Cons h ys)
  let ?r = "addCounts r (objAt tbl h)"
  have step: "countAt ?r k = countAt r k + countAt (objAt tbl h) k"
    by (rule countAt_addCounts[OF innerDistinct_objAt[OF assms]])
  from Cons.prems have s: "sorted ys" and d: "distinct ys" and hn: "h \<notin> set ys"
    and lt: "\<forall>z \<in> set ys. h < z" by (auto simp: less_le)
  show ?case
  proof (cases "y = h")
    case True
    have "{y' \<in> set (h # ys). y' \<le> h} = {h}" using lt by auto
    moreover have "objAt (buildEntire tbl (h # ys) r ent) h = ?r"
      using hn by (simp add: objAt_def Let_def buildEntire_other update_conv')
    ultimately show ?thesis using step True by simp
  next
    case False
    with Cons.prems have yin: "y \<in> set ys" by simp
    with lt have "h < y" by blast
    then have "{y' \<in> set (h # ys). y' \<le> y} = insert h {y' \<in> set ys. y' \<le> y}" by auto
    moreover have "h \<notin> {y' \<in> set ys. y' \<le> y}" using hn by simp
    ultimately have "(\<Sum>y' \<in> {y' \<in> set (h # ys). y' \<le> y}. countAt (objAt tbl y') k) =
       countAt (objAt tbl h) k + (\<Sum>y' \<in> {y' \<in> set ys. y' \<le> y}. countAt (objAt tbl y') k)"
      by simp
    then show ?thesis
      using Cons.IH[OF s d yin, of ?r "AList.update h ?r ent"] step
      by (simp add: Let_def)
  qed
qed

lemma closestYear_None:
  "closestYear tbl Y = None \<longleftrightarrow> {y \<in> fst ` set tbl. y \<le> Y} = {}"
proof -
  have "closestYear tbl Y = None \<longleftrightarrow> filter (\<lambda>y. y \<le> Y) (map fst tbl) = []"
    by (simp add: closestYear_def split: list.splits)
  also have "\<dots> \<longleftrightarrow> {y \<in> fst ` set tbl. y \<le> Y} = {}"
    by (auto simp: filter_empty_conv)
  finally show ?thesis .
qed

lemma closestYear_Some:
  assumes "closestYear tbl Y = Some m"
  shows "m \<in> fst ` set tbl \<and> m \<le> Y \<and> (\<forall>y \<in> fst ` set tbl. y \<le> Y \<longrightarrow> y \<le> m)"
proof -
  let ?S = "filter (\<lambda>y. y \<le> Y) (map fst tbl)"
  from assms obtain y ys where e: "?S = y # ys" and m: "m = fold max ys y"
    by (auto simp: closestYear_def split: list.splits)
  have mm: "m = Max (set ?S)" unfolding e m by (rule Max.set_eq_fold[symmetric])
  have ne: "set ?S \<noteq> {}" using e by auto
  have "m \<in> set ?S" unfolding mm by (rule Max_in) (use ne in auto)
  moreover have "\<forall>z \<in> set ?S. z \<le> m" unfolding mm by (auto intro: Max_ge)
  ultimately show ?thesis by auto
qed

lemma closestYear_greatest:
  assumes "g \<in> fst ` set tbl" "g \<le> Y" "\<forall>y \<in> fst ` set tbl. y \<le> Y \<longrightarrow> y \<le> g"
  shows "closestYear tbl Y = Some g"
proof (cases "closestYear tbl Y")
  case None
  with assms(1,2) show ?thesis by (auto simp: closestYear_None)
next
  case (Some m)
  from closestYear_Some[OF Some] assms have "m = g" by (meson order_antisym)
  with Some show ?thesis by simp
qed

lemma cumulative_prefix:
  assumes "innerDistinct tbl" "distinct (map fst tbl)" "y \<in> fst ` set tbl"
  shows "countAt (objAt (cumulative tbl) y) k =
     (\<Sum>y' \<in> {y' \<in> fst ` set tbl. y' \<le> y}. countAt (objAt tbl y') k)"
  using buildEntire_prefix[OF assms(1), of "yearsSorted tbl" y "[]" "[]" k] assms(2,3)
  by (simp add: cumulative_def yearsSorted_def countAt_Nil)

lemma keys_cumulative: "fst ` set (cumulative tbl) = fst ` set tbl"
  by (simp add: cumulative_def yearsSorted_def keys_buildEntire)

lemma innerDistinct_cumulative: "innerDistinct (cumulative tbl)"
  unfolding cumulative_def
  by (rule innerDistinct_buildEntire[OF innerDistinct_Nil]) simp

lemma countsFor_precompute_Year:
  "countsFor (precompute a) y Year = objAt (buildYear (yearly a) []) y"
  by (simp add: countsFor_def precompute_def buildCache_def Let_def)

lemma countsFor_precompute_Entire:
  "countsFor (precompute a) Y Entire =
     (case closestYear (cumulative (buildYear (yearly a) [])) Y of
        None \<Rightarrow> [] | Some g \<Rightarrow> objAt (cumulative (buildYear (yearly a) [])) g)"
  by (simp add: countsFor_def precompute_def buildCache_def Let_def split: option.splits)

lemma tableYears_keys: "tableYears a = fst ` set (buildYear (yearly a) [])"
  by (simp add: tableYears_def keys_buildYear)

lemma cached_precompute: "cached (precompute a)"
  by (simp add: cached_def precompute_def buildCache_def)

lemma distinct_lookup:
  "innerDistinct tbl \<Longrightarrow>
     distinct (map fst (case closestYear tbl Y of None \<Rightarrow> [] | Some g \<Rightarrow> objAt tbl g))"
  by (simp add: innerDistinct_objAt split: option.splits)

lemma distinct_countsFor: "cached a \<Longrightarrow> distinct (map fst (countsFor a year m))"
  unfolding cached_def countsFor_def buildCache_def Let_def
  by (cases m)
     (auto simp: innerDistinct_objAt innerDistinct_buildYear innerDistinct_Nil
        innerDistinct_cumulative split: option.splits)

lemma distinct_sankeyPairs: "cached a \<Longrightarrow> distinct (map fst (sankeyPairs a year m))"
  unfolding cached_def sankeyPairs_def buildCache_def Let_def
  by (cases m)
     (auto simp: innerDistinct_objAt innerDistinct_buildYear innerDistinct_Nil
        innerDistinct_cumulative split: option.splits)

section \<open>Values on the sample data\<close>

lemma authorA_years: "tableYears (rawAuthor ''A1''
     [(Some 2020, [(''AI'', 3)]), (Some 2021, [(''AI'', 2), (''Software'', 5)])]
     [(Some 2020, [(''AI---CS'', 5), (''Software---CS'', 3)])]) = {2020, 2021}"
  by (simp add: tableYears_def rawAuthor_def List.map_filter_simps)

lemma authorA_2021: "countsFor authorA 2021 Entire = [(''AI'', 5), (''Software'', 5)]"
  by code_simp

lemma authorZ_2020: "countsFor authorZ 2020 Year = [(''AI'', 0)]"
  by code_simp

lemma authorS_2020: "countsFor authorS 2020 Year = [(''Software'', 10)]"
  by code_simp

lemma authorA_2019: "countsFor authorA 2019 Year = []"
  by code_simp

lemma authorZ_fields: "countsForFields authorZ 2020 Entire = []"
  by code_simp

lemma visible_none: "computeVisibleSubfields [] 2020 Entire = []"
  by code_simp

lemma visible_three:
  "computeVisibleSubfields [authorA, authorS, authorZ] 2021 Entire = [''AI'', ''Software'']"
  by code_simp

lemma phantoms_A: "computePhantomsForYear [nodeOf authorA, nodeOf authorZ] sampleCenters 2021 Entire =
   [\<lparr> ph_parent = nodeOf authorA, ph_subfield = ''Software'', ph_count = 5,
      ph_tx = 2, ph_ty = 3 \<rparr>]"
  by code_simp

lemma phantoms_one: "computePhantomsForYear [nodeOf authorA] sampleCenters 2021 Entire =
   [\<lparr> ph_parent = nodeOf authorA, ph_subfield = ''Software'', ph_count = 5,
      ph_tx = 2, ph_ty = 3 \<rparr>]"
  by code_simp

lemma phantoms_two: "computePhantomsForYear [nodeOf authorA, nodeOf authorB] sampleCenters 2021 Entire =
   [\<lparr> ph_parent = nodeOf authorA, ph_subfield = ''Software'', ph_count = 5,
      ph_tx = 2, ph_ty = 3 \<rparr>,
    \<lparr> ph_parent = nodeOf authorB, ph_subfield = ''Software'', ph_count = 10,
      ph_tx = 2, ph_ty = 3 \<rparr>]"
  by code_simp

lemma sankey_A_2020: "updateSankey [authorA] 2020 Year =
   \<lparr> sankey_nodes = [''AI'', ''CS'', ''Software''],
     sankey_links = [\<lparr> link_source = ''AI'', link_target = ''CS'', link_value = 5 \<rparr>,
                     \<lparr> link_source = ''Software'', link_target = ''CS'', link_value = 3 \<rparr>],
     sankey_indexed = [(Some 0, Some 1, 5), (Some 2, Some 1, 3)] \<rparr>"
  by code_simp

lemma totals_A_2019: "pairTotalsLoop [authorA] 2019 Year [] = []"
  by code_simp

lemma pairs_A_2020: "sankeyPairs authorA 2020 Year = [(''AI---CS'', 5), (''Software---CS'', 3)]"
  by code_simp

lemma pairs_S_2020: "sankeyPairs authorS 2020 Year = [(''Software---CS'', 4), (''Loose'', 2)]"
  by code_simp

lemma links_AS_2020: "sankey_links (updateSankey [authorA, authorS] 2020 Year) =
   [\<lparr> link_source = ''AI'', link_target = ''CS'', link_value = 5 \<rparr>,
    \<lparr> link_source = ''Software'', link_target = ''CS'', link_value = 7 \<rparr>]"
  by code_simp

section \<open>Cumulative counts are prefix sums\<close>

text \<open>
  Claim C1. For an author whose cache has been built, the count of a category \<open>C\<close> that
  \<^verbatim>\<open>countsFor\<close> returns in \<^verbatim>\<open>entire\<close> mode at year \<open>Y\<close> is the sum, over the years
  \<open>y' \<le> Y\<close> of the author's subfield table, of the count of \<open>C\<close> in \<^verbatim>\<open>year\<close> mode at
  \<open>y'\<close>. The result is the empty object when the table has no year up to \<open>Y\<close>, and it is
  the snapshot of the greatest table year \<open>g \<le> Y\<close>, so a query after the last year with
  data returns the last snapshot.
\<close>

theorem countsFor_entire_prefix_sum:
  "countAt (countsFor (precompute a) Y Entire) C =
     (\<Sum>y' \<in> {y' \<in> tableYears a. y' \<le> Y}. countAt (countsFor (precompute a) y' Year) C)
   \<and> ({y' \<in> tableYears a. y' \<le> Y} = {} \<longrightarrow> countsFor (precompute a) Y Entire = [])
   \<and> (\<forall>g \<in> tableYears a. g \<le> Y \<and> (\<forall>y' \<in> tableYears a. y' \<le> Y \<longrightarrow> y' \<le> g) \<longrightarrow>
         countsFor (precompute a) Y Entire = countsFor (precompute a) g Entire)"
proof -
  let ?yr = "buildYear (yearly a) []"
  have inner: "innerDistinct ?yr" by (rule innerDistinct_buildYear[OF innerDistinct_Nil])
  have dist: "distinct (map fst ?yr)" by (rule distinct_buildYear) simp
  have keys: "fst ` set (cumulative ?yr) = tableYears a"
    by (simp add: keys_cumulative tableYears_keys)
  have p1: "countAt (countsFor (precompute a) Y Entire) C =
     (\<Sum>y' \<in> {y' \<in> tableYears a. y' \<le> Y}. countAt (countsFor (precompute a) y' Year) C)"
  proof (cases "closestYear (cumulative ?yr) Y")
    case None
    then have e: "{y' \<in> tableYears a. y' \<le> Y} = {}" by (simp add: closestYear_None keys)
    show ?thesis unfolding e using None by (simp add: countsFor_precompute_Entire countAt_Nil)
  next
    case (Some g)
    from closestYear_Some[OF Some] have g: "g \<in> tableYears a" "g \<le> Y"
      and top: "\<forall>y \<in> tableYears a. y \<le> Y \<longrightarrow> y \<le> g" by (simp_all add: keys)
    have "{y' \<in> tableYears a. y' \<le> g} = {y' \<in> tableYears a. y' \<le> Y}"
      using g top by auto
    then show ?thesis
      using cumulative_prefix[OF inner dist, of g C] g(1) Some
      by (simp add: countsFor_precompute_Entire countsFor_precompute_Year tableYears_keys)
  qed
  have p2: "{y' \<in> tableYears a. y' \<le> Y} = {} \<longrightarrow> countsFor (precompute a) Y Entire = []"
  proof
    assume "{y' \<in> tableYears a. y' \<le> Y} = {}"
    then have "closestYear (cumulative ?yr) Y = None" by (simp add: closestYear_None keys)
    then show "countsFor (precompute a) Y Entire = []"
      by (simp add: countsFor_precompute_Entire)
  qed
  have p3: "\<forall>g \<in> tableYears a. g \<le> Y \<and> (\<forall>y' \<in> tableYears a. y' \<le> Y \<longrightarrow> y' \<le> g) \<longrightarrow>
         countsFor (precompute a) Y Entire = countsFor (precompute a) g Entire"
  proof (intro ballI impI)
    fix g assume g: "g \<in> tableYears a"
      and h: "g \<le> Y \<and> (\<forall>y' \<in> tableYears a. y' \<le> Y \<longrightarrow> y' \<le> g)"
    have a1: "closestYear (cumulative ?yr) Y = Some g"
      by (rule closestYear_greatest) (use g h in \<open>simp_all add: keys\<close>)
    have a2: "closestYear (cumulative ?yr) g = Some g"
      by (rule closestYear_greatest) (use g in \<open>simp_all add: keys\<close>)
    show "countsFor (precompute a) Y Entire = countsFor (precompute a) g Entire"
      by (simp add: countsFor_precompute_Entire a1 a2)
  qed
  from p1 p2 p3 show ?thesis by blast
qed

theorem countsFor_entire_prefix_sum_witness:
  "countAt (countsFor authorA 2030 Entire) ''AI'' =
     countAt (countsFor authorA 2020 Year) ''AI'' + countAt (countsFor authorA 2021 Year) ''AI''
   \<and> countsFor authorA 2019 Entire = []
   \<and> countsFor authorA 2030 Entire = countsFor authorA 2021 Entire"
proof -
  let ?raw = "rawAuthor ''A1''
     [(Some 2020, [(''AI'', 3)]), (Some 2021, [(''AI'', 2), (''Software'', 5)])]
     [(Some 2020, [(''AI---CS'', 5), (''Software---CS'', 3)])]"
  have A: "authorA = precompute ?raw" by (simp add: authorA_def)
  have s1: "{y' \<in> tableYears ?raw. y' \<le> 2030} = {2020, 2021}"
    by (auto simp: authorA_years)
  have s2: "{y' \<in> tableYears ?raw. y' \<le> 2019} = {}"
    by (auto simp: authorA_years)
  have s3: "(2021::int) \<in> tableYears ?raw \<and> (2021::int) \<le> 2030
      \<and> (\<forall>y' \<in> tableYears ?raw. y' \<le> 2030 \<longrightarrow> y' \<le> 2021)"
    by (simp add: authorA_years)
  show ?thesis
    using countsFor_entire_prefix_sum[of ?raw 2030 "''AI''"]
      countsFor_entire_prefix_sum[of ?raw 2019 "''AI''"] s1 s2 s3
    unfolding A by auto
qed

section \<open>Main subfield\<close>

text \<open>
  With a strictly positive count, \<^verbatim>\<open>mainSubfieldFor\<close> returns the
  least name among the categories of greatest count; with only negative counts or none
  it returns \<^verbatim>\<open>"Unknown"\<close>.
\<close>

lemma bestLoop_inv:
  "bestLoop cs (b, n) = (b', n') \<Longrightarrow>
     (b', n') \<in> insert (b, n) (set cs)
   \<and> n \<le> n' \<and> (\<forall>v \<in> snd ` set cs. v \<le> n')
   \<and> (\<forall>x. (x, n') \<in> insert (b, n) (set cs) \<longrightarrow> b' \<le> x)"
proof (induction cs arbitrary: b n)
  case Nil
  then show ?case by simp
next
  case (Cons e cs)
  obtain sf cnt where e: "e = (sf, cnt)" by (cases e)
  show ?case
  proof (cases "cnt > n \<or> (cnt = n \<and> sf < b)")
    case True
    with Cons.prems e have "bestLoop cs (sf, cnt) = (b', n')" by simp
    from Cons.IH[OF this] have
      i1: "(b', n') \<in> insert (sf, cnt) (set cs)" and i2: "cnt \<le> n'"
      and i3: "\<forall>v \<in> snd ` set cs. v \<le> n'"
      and i4: "\<forall>x. (x, n') \<in> insert (sf, cnt) (set cs) \<longrightarrow> b' \<le> x" by blast+
    have "b' \<le> b" if "n = n'"
    proof -
      from that True i2 have "cnt = n'" "sf < b" by auto
      with i4 have "b' \<le> sf" by simp
      with \<open>sf < b\<close> show ?thesis by simp
    qed
    then show ?thesis using i1 i2 i3 i4 True by (auto simp: e)
  next
    case False
    with Cons.prems e have "bestLoop cs (b, n) = (b', n')" by simp
    from Cons.IH[OF this] have
      i1: "(b', n') \<in> insert (b, n) (set cs)" and i2: "n \<le> n'"
      and i3: "\<forall>v \<in> snd ` set cs. v \<le> n'"
      and i4: "\<forall>x. (x, n') \<in> insert (b, n) (set cs) \<longrightarrow> b' \<le> x" by blast+
    have "b' \<le> sf" if "cnt = n'"
    proof -
      from that False i2 have "n = n'" "\<not> sf < b" by auto
      with i4 have "b' \<le> b" by simp
      with \<open>\<not> sf < b\<close> show ?thesis by simp
    qed
    moreover have "cnt \<le> n'" using False i2 by auto
    ultimately show ?thesis using i1 i2 i3 i4 by (auto simp: e)
  qed
qed

lemma mainSubfieldFor_positive:
  assumes "(sf, cnt) \<in> set (countsFor a year m)" "0 < cnt"
  shows "\<exists>top. 0 < top
     \<and> (mainSubfieldFor a year m, top) \<in> set (countsFor a year m)
     \<and> (\<forall>v \<in> snd ` set (countsFor a year m). v \<le> top)
     \<and> (\<forall>x. (x, top) \<in> set (countsFor a year m) \<longrightarrow> mainSubfieldFor a year m \<le> x)"
proof -
  obtain b' n' where r: "bestLoop (countsFor a year m) (''Unknown'', 0) = (b', n')"
    by (cases "bestLoop (countsFor a year m) (''Unknown'', 0)")
  note inv = bestLoop_inv[OF r]
  have ms: "mainSubfieldFor a year m = b'" by (simp add: mainSubfieldFor_def r)
  from inv assms have "cnt \<le> n'" by force
  with assms(2) have pos: "0 < n'" by simp
  with inv have "(b', n') \<in> set (countsFor a year m)" by auto
  with inv pos show ?thesis unfolding ms by (intro exI[of _ n']) auto
qed

lemma mainSubfieldFor_no_counts:
  "\<forall>v \<in> snd ` set (countsFor a year m). v < 0 \<Longrightarrow> mainSubfieldFor a year m = ''Unknown''"
proof -
  have "\<forall>v \<in> snd ` set cs. v < 0 \<Longrightarrow> bestLoop cs (b, 0) = (b, 0)" for cs b
    by (induction cs) auto
  then show "\<forall>v \<in> snd ` set (countsFor a year m). v < 0 \<Longrightarrow>
      mainSubfieldFor a year m = ''Unknown''"
    by (simp add: mainSubfieldFor_def)
qed

text \<open>
  Claim C2 says that \<^verbatim>\<open>mainSubfieldFor\<close> returns \<^verbatim>\<open>"Unknown"\<close> whenever no count is
  strictly positive. The loop starts from \<^verbatim>\<open>{ sf: "Unknown", cnt: 0 }\<close> and its tie-break
  \<^verbatim>\<open>n === best.cnt && sf < best.sf\<close> also fires against that start value: for an author
  whose only count is a zero for \<^verbatim>\<open>"AI"\<close>, who is not active, the function returns
  \<^verbatim>\<open>"AI"\<close> in both modes.
\<close>

theorem mainSubfieldFor_zero_count:
  "countsFor authorZ 2020 Year = [(''AI'', 0)]
   \<and> \<not> isActiveBy authorZ 2020 Year
   \<and> mainSubfieldFor authorZ 2020 Year = ''AI''
   \<and> mainSubfieldFor authorZ 2020 Entire = ''AI''"
  by code_simp

section \<open>Interdisciplinarity of an author\<close>

lemma ratio_bounds:
  assumes "vals = v # vs" "\<forall>x \<in> set vals. (0::int) < x"
  shows "0 \<le> 1 - real_of_int (fold max vs v) / real_of_int (sum_list vals)"
    and "1 - real_of_int (fold max vs v) / real_of_int (sum_list vals) < 1"
proof -
  let ?M = "fold max vs v"
  have M: "?M = Max (set vals)" by (simp only: fold_max_Max assms(1))
  have "?M \<in> set vals" unfolding M by (rule Max_in) (simp_all add: assms(1))
  then have pos: "0 < ?M" and le: "?M \<le> sum_list vals"
    using assms(2) member_le_sum_list_int[of vals ?M] by (auto simp: less_imp_le)
  then have "0 < real_of_int ?M" "real_of_int ?M \<le> real_of_int (sum_list vals)" by simp_all
  then have "0 < real_of_int ?M / real_of_int (sum_list vals)"
    and "real_of_int ?M / real_of_int (sum_list vals) \<le> 1"
    by (simp_all add: divide_le_eq_1)
  then show "0 \<le> 1 - real_of_int ?M / real_of_int (sum_list vals)"
    and "1 - real_of_int ?M / real_of_int (sum_list vals) < 1" by simp_all
qed

text \<open>
  Claim C3. With \<open>pos\<close> the strictly positive counts of the \<^verbatim>\<open>countsFor\<close> result,
  \<^verbatim>\<open>interdisciplinarity\<close> is one minus the greatest element of \<open>pos\<close> divided by the sum
  of \<open>pos\<close>; it is exactly zero when \<open>pos\<close> is empty (an empty object, or all counts
  zero) and when \<open>pos\<close> has a single element, and it always lies in \<open>[0, 1)\<close>.
\<close>

theorem interdisciplinarity_range:
  "(let pos = filter (\<lambda>v. 0 < v) (map snd (countsFor a year m)) in
      (pos \<noteq> [] \<longrightarrow>
         interdisciplinarity a year m =
           1 - real_of_int (Max (set pos)) / real_of_int (sum_list pos))
    \<and> (pos = [] \<longrightarrow> interdisciplinarity a year m = 0)
    \<and> (\<forall>v. pos = [v] \<longrightarrow> interdisciplinarity a year m = 0))
   \<and> (countsFor a year m = [] \<longrightarrow> interdisciplinarity a year m = 0)
   \<and> ((\<forall>v \<in> snd ` set (countsFor a year m). v = 0) \<longrightarrow> interdisciplinarity a year m = 0)
   \<and> 0 \<le> interdisciplinarity a year m \<and> interdisciplinarity a year m < 1"
proof -
  define pos where "pos = filter (\<lambda>v. 0 < v) (map snd (countsFor a year m))"
  have I: "interdisciplinarity a year m =
      (case pos of [] \<Rightarrow> 0
       | v # vs \<Rightarrow> 1 - real_of_int (fold max vs v) / real_of_int (sum_list pos))"
    unfolding interdisciplinarity_def Let_def pos_def ..
  have allpos: "\<forall>x \<in> set pos. 0 < x" by (simp add: pos_def)
  have c1: "pos \<noteq> [] \<longrightarrow> interdisciplinarity a year m =
           1 - real_of_int (Max (set pos)) / real_of_int (sum_list pos)"
    by (cases pos) (simp_all add: I fold_max_Max del: fold_simps)
  have c2: "pos = [] \<longrightarrow> interdisciplinarity a year m = 0" by (simp add: I)
  have c3: "\<forall>v. pos = [v] \<longrightarrow> interdisciplinarity a year m = 0"
    using allpos by (auto simp: I)
  have c4: "countsFor a year m = [] \<longrightarrow> interdisciplinarity a year m = 0"
    using c2 by (simp add: pos_def)
  have c5: "(\<forall>v \<in> snd ` set (countsFor a year m). v = 0) \<longrightarrow> interdisciplinarity a year m = 0"
  proof
    assume "\<forall>v \<in> snd ` set (countsFor a year m). v = 0"
    then have "pos = []" by (auto simp: pos_def filter_empty_conv)
    with c2 show "interdisciplinarity a year m = 0" by simp
  qed
  have c6: "0 \<le> interdisciplinarity a year m \<and> interdisciplinarity a year m < 1"
  proof (cases pos)
    case Nil
    then show ?thesis by (simp add: I)
  next
    case (Cons v vs)
    from ratio_bounds[OF Cons allpos] show ?thesis by (simp add: I Cons)
  qed
  show ?thesis
    using c1 c2 c3 c4 c5 c6 unfolding Let_def pos_def by blast
qed

theorem interdisciplinarity_range_witness:
  "interdisciplinarity authorA 2021 Entire = 1 / 2
   \<and> interdisciplinarity authorA 2019 Year = 0
   \<and> interdisciplinarity authorZ 2020 Year = 0
   \<and> interdisciplinarity authorS 2020 Year = 0"
  using interdisciplinarity_range[of authorA 2021 Entire]
    interdisciplinarity_range[of authorA 2019 Year]
    interdisciplinarity_range[of authorZ 2020 Year]
    interdisciplinarity_range[of authorS 2020 Year]
  by (simp add: authorA_2021 authorZ_2020 authorS_2020 authorA_2019)

section \<open>Cluster layout\<close>

lemma set_addPresent:
  "set (addPresent cs present) = set present \<union> {sf. \<exists>cnt. (sf, cnt) \<in> set cs \<and> 0 < cnt}"
  by (induction cs present rule: addPresent.induct) auto

lemma distinct_addPresent: "distinct present \<Longrightarrow> distinct (addPresent cs present)"
  by (induction cs present rule: addPresent.induct) auto

lemma set_presentLoop:
  "set (presentLoop pop year m present) =
     set present \<union> {sf. \<exists>a \<in> set pop. \<exists>cnt. (sf, cnt) \<in> set (countsFor a year m) \<and> 0 < cnt}"
  by (induction pop year m present rule: presentLoop.induct) (auto simp: set_addPresent)

lemma distinct_presentLoop: "distinct present \<Longrightarrow> distinct (presentLoop pop year m present)"
  by (induction pop year m present rule: presentLoop.induct) (auto simp: distinct_addPresent)

lemma set_computeVisibleSubfields:
  "set (computeVisibleSubfields pop year m) =
     {sf. \<exists>a \<in> set pop. \<exists>cnt. (sf, cnt) \<in> set (countsFor a year m) \<and> 0 < cnt}"
  by (simp add: computeVisibleSubfields_def set_presentLoop)

lemma sorted_computeVisibleSubfields:
  "sorted (computeVisibleSubfields pop year m) \<and> distinct (computeVisibleSubfields pop year m)"
  by (simp add: computeVisibleSubfields_def distinct_presentLoop)

lemma centersLoop_fresh:
  "distinct vs \<Longrightarrow> set vs \<inter> fst ` set ccm = {} \<Longrightarrow>
     centersLoop cX cY r n i vs ccm =
       ccm @ map (\<lambda>j. (vs ! j, slot cX cY r n (i + j))) [0..<length vs]"
proof (induction vs arbitrary: i ccm)
  case Nil
  show ?case by simp
next
  case (Cons sf vs)
  from Cons.prems have nin: "sf \<notin> fst ` set ccm" and d: "distinct vs"
    and dj: "set vs \<inter> fst ` set (ccm @ [(sf, slot cX cY r n i)]) = {}" by auto
  have "centersLoop cX cY r n i (sf # vs) ccm =
      centersLoop cX cY r n (Suc i) vs (ccm @ [(sf, slot cX cY r n i)])"
    by (simp add: Let_def update_fresh[OF nin] slot_def)
  also have "\<dots> = (ccm @ [(sf, slot cX cY r n i)]) @
      map (\<lambda>j. (vs ! j, slot cX cY r n (Suc i + j))) [0..<length vs]"
    by (rule Cons.IH[OF d dj])
  also have "\<dots> = ccm @ map (\<lambda>j. ((sf # vs) ! j, slot cX cY r n (i + j))) [0..<length (sf # vs)]"
    by (simp add: upt_conv_Cons map_Suc_upt[symmetric] del: upt_Suc)
  finally show ?case .
qed

lemma map_of_indexed:
  "distinct vs \<Longrightarrow> i < length vs \<Longrightarrow>
     map_of (map (\<lambda>j. (vs ! j, f j)) [0..<length vs]) (vs ! i) = Some (f i)"
proof -
  assume d: "distinct vs" and i: "i < length vs"
  have "distinct (map fst (map (\<lambda>j. (vs ! j, f j)) [0..<length vs]))"
    using d by (simp add: comp_def map_nth)
  moreover have "(vs ! i, f i) \<in> set (map (\<lambda>j. (vs ! j, f j)) [0..<length vs])"
    using i by auto
  ultimately show ?thesis by (rule map_of_is_SomeI)
qed

text \<open>
  Claim C4. The visible subfields are exactly those for which some author of the
  population has a strictly positive count; the cluster keys are these subfields, or
  the single key \<^verbatim>\<open>"Unknown"\<close> when there is none, so they are never empty; they are
  sorted by name without repetition; and the key at index \<open>i\<close> of \<open>N\<close> keys is mapped
  to the angle \<open>(i / N) * 2 * pi - pi / 2\<close> on the circle of radius
  \<open>min innerW innerH * 0.35\<close> around \<open>(innerW / 2, innerH / 2 - 40)\<close>.
\<close>

theorem clusterKeys_layout:
  "set (computeVisibleSubfields pop year m) =
     {sf. \<exists>a \<in> set pop. \<exists>cnt. (sf, cnt) \<in> set (countsFor a year m) \<and> 0 < cnt}
   \<and> clusterKeys innerW innerH pop year m =
       (if computeVisibleSubfields pop year m = [] then [''Unknown'']
        else computeVisibleSubfields pop year m)
   \<and> clusterKeys innerW innerH pop year m \<noteq> []
   \<and> sorted (clusterKeys innerW innerH pop year m)
   \<and> distinct (clusterKeys innerW innerH pop year m)
   \<and> (\<forall>i < length (clusterKeys innerW innerH pop year m).
        map_of (clusterCenterMap innerW innerH pop year m)
            (clusterKeys innerW innerH pop year m ! i) =
          Some \<lparr> center_x = innerW / 2 + min innerW innerH * 0.35 *
                    cos ((real i / real (length (clusterKeys innerW innerH pop year m))) * 2 * pi
                         - pi / 2),
                 center_y = innerH / 2 - 40 + min innerW innerH * 0.35 *
                    sin ((real i / real (length (clusterKeys innerW innerH pop year m))) * 2 * pi
                         - pi / 2),
                 center_angle =
                    (real i / real (length (clusterKeys innerW innerH pop year m))) * 2 * pi
                         - pi / 2 \<rparr>)"
proof -
  define vs where "vs = computeVisibleSubfields pop year m"
  define ks where "ks = (if vs = [] then [''Unknown''] else vs)"
  have sd: "sorted vs" "distinct vs"
    using sorted_computeVisibleSubfields[of pop year m] by (simp_all add: vs_def)
  have ksd: "sorted ks" "distinct ks" "ks \<noteq> []" using sd by (simp_all add: ks_def)
  have ccm: "clusterCenterMap innerW innerH pop year m =
      map (\<lambda>j. (ks ! j, slot (innerW / 2) (innerH / 2 - 40) (min innerW innerH * 0.35)
                  (length ks) j)) [0..<length ks]"
  proof -
    have e: "(if length vs = 0 then vs @ [''Unknown''] else vs) = ks"
      by (simp add: ks_def)
    have "clusterCenterMap innerW innerH pop year m =
        centersLoop (innerW / 2) (innerH / 2 - 40) (min innerW innerH * 0.35) (length ks) 0 ks []"
      unfolding clusterCenterMap_def Let_def vs_def[symmetric] e ..
    also have "\<dots> = [] @ map (\<lambda>j. (ks ! j, slot (innerW / 2) (innerH / 2 - 40)
        (min innerW innerH * 0.35) (length ks) (0 + j))) [0..<length ks]"
      by (rule centersLoop_fresh[OF ksd(2)]) simp
    finally show ?thesis by simp
  qed
  have keys: "clusterKeys innerW innerH pop year m = ks"
    by (simp add: clusterKeys_def ccm comp_def map_nth)
  have slots: "\<forall>i < length ks. map_of (clusterCenterMap innerW innerH pop year m) (ks ! i) =
      Some (slot (innerW / 2) (innerH / 2 - 40) (min innerW innerH * 0.35) (length ks) i)"
    unfolding ccm using map_of_indexed[OF ksd(2)] by blast
  show ?thesis
    unfolding keys
    using set_computeVisibleSubfields[of pop year m] ksd slots
    by (simp add: ks_def vs_def slot_def)
qed

theorem clusterKeys_layout_witness:
  "clusterKeys 1080 590 [] 2020 Entire = [''Unknown'']
   \<and> map_of (clusterCenterMap 1080 590 [] 2020 Entire) ''Unknown'' =
       Some \<lparr> center_x = 540, center_y = 48.5, center_angle = - (pi / 2) \<rparr>
   \<and> clusterKeys 1080 590 [authorA, authorS, authorZ] 2021 Entire = [''AI'', ''Software'']
   \<and> map_of (clusterCenterMap 1080 590 [authorA, authorS, authorZ] 2021 Entire) ''Software'' =
       Some \<lparr> center_x = 540, center_y = 461.5, center_angle = pi / 2 \<rparr>"
proof -
  note T0 = clusterKeys_layout[of "[]" 2020 Entire 1080 590]
  note T1 = clusterKeys_layout[of "[authorA, authorS, authorZ]" 2021 Entire 1080 590]
  have k0: "clusterKeys 1080 590 [] 2020 Entire = [''Unknown'']"
    using T0 by (simp add: visible_none)
  have k1: "clusterKeys 1080 590 [authorA, authorS, authorZ] 2021 Entire = [''AI'', ''Software'']"
    using T1 by (simp add: visible_three)
  have c0: "map_of (clusterCenterMap 1080 590 [] 2020 Entire) ''Unknown'' =
       Some \<lparr> center_x = 540, center_y = 48.5, center_angle = - (pi / 2) \<rparr>"
    using T0[THEN conjunct2, THEN conjunct2, THEN conjunct2, THEN conjunct2, THEN conjunct2,
        THEN spec, of 0]
    by (simp add: k0)
  have c1: "map_of (clusterCenterMap 1080 590 [authorA, authorS, authorZ] 2021 Entire) ''Software'' =
       Some \<lparr> center_x = 540, center_y = 461.5, center_angle = pi / 2 \<rparr>"
    using T1[THEN conjunct2, THEN conjunct2, THEN conjunct2, THEN conjunct2, THEN conjunct2,
        THEN spec, of 1]
    by (simp add: k1)
  from k0 k1 c0 c1 show ?thesis by simp
qed

section \<open>Phantom edges\<close>

lemma phantomsOf_iff:
  "e \<in> set (phantomsOf n main ccm cs) \<longleftrightarrow>
     (\<exists>sf cnt c. (sf, cnt) \<in> set cs \<and> 0 < cnt \<and> sf \<noteq> main \<and> map_of ccm sf = Some c
        \<and> e = \<lparr> ph_parent = n, ph_subfield = sf, ph_count = cnt,
                 ph_tx = center_x c, ph_ty = center_y c \<rparr>)"
proof (induction n main ccm cs rule: phantomsOf.induct)
  case (1 n main ccm)
  show ?case by simp
next
  case (2 n main ccm sf cnt rest)
  show ?case
  proof (cases "0 < cnt \<and> sf \<noteq> main")
    case False
    then show ?thesis using 2 by auto
  next
    case True
    show ?thesis
    proof (cases "map_of ccm sf")
      case None
      then show ?thesis using True 2 by auto
    next
      case (Some c)
      then show ?thesis using True 2 by auto
    qed
  qed
qed

lemma phantomsOf_keys:
  "e \<in> set (phantomsOf n main ccm cs) \<Longrightarrow> ph_parent e = n \<and> ph_subfield e \<in> fst ` set cs"
  by (auto simp: phantomsOf_iff intro: rev_image_eqI)

lemma distinct_phantomsOf:
  "distinct (map fst cs) \<Longrightarrow>
     distinct (map (\<lambda>e. (node_id (ph_parent e), ph_subfield e)) (phantomsOf n main ccm cs))"
proof (induction cs)
  case Nil
  show ?case by simp
next
  case (Cons p cs)
  obtain sf cnt where p: "p = (sf, cnt)" by (cases p)
  from Cons.prems p have nin: "sf \<notin> fst ` set cs" and d: "distinct (map fst cs)" by auto
  have fresh: "(node_id n, sf) \<notin>
      (\<lambda>e. (node_id (ph_parent e), ph_subfield e)) ` set (phantomsOf n main ccm cs)"
    using nin phantomsOf_keys[of _ n main ccm cs] by auto
  show ?case
    unfolding p using Cons.IH[OF d] fresh
    by (cases "map_of ccm sf") simp_all
qed

lemma computePhantoms_iff:
  "e \<in> set (computePhantomsForYear nodes ccm year m) \<longleftrightarrow>
     (\<exists>n \<in> set nodes. isActiveBy (node_author n) year m
        \<and> e \<in> set (phantomsOf n (mainSubfieldFor (node_author n) year m) ccm
                     (countsFor (node_author n) year m)))"
  by (induction nodes) auto

lemma distinct_computePhantoms:
  "distinct (map node_id nodes) \<Longrightarrow> \<forall>n \<in> set nodes. cached (node_author n) \<Longrightarrow>
     distinct (map (\<lambda>e. (node_id (ph_parent e), ph_subfield e))
        (computePhantomsForYear nodes ccm year m))"
proof (induction nodes)
  case Nil
  show ?case by simp
next
  case (Cons n nodes)
  let ?key = "\<lambda>e. (node_id (ph_parent e), ph_subfield e)"
  let ?here = "phantomsOf n (mainSubfieldFor (node_author n) year m) ccm
      (countsFor (node_author n) year m)"
  from Cons.prems have nid: "node_id n \<notin> node_id ` set nodes"
    and d: "distinct (map node_id nodes)" and c: "\<forall>x \<in> set nodes. cached (node_author x)"
    and cn: "cached (node_author n)" by auto
  have h: "distinct (map ?key ?here)"
    by (rule distinct_phantomsOf[OF distinct_countsFor[OF cn]])
  have r: "distinct (map ?key (computePhantomsForYear nodes ccm year m))"
    by (rule Cons.IH[OF d c])
  have dj: "?key ` set ?here \<inter> ?key ` set (computePhantomsForYear nodes ccm year m) = {}"
  proof -
    have "\<forall>e \<in> set ?here. fst (?key e) = node_id n"
      using phantomsOf_keys by fastforce
    moreover have "\<forall>e \<in> set (computePhantomsForYear nodes ccm year m).
        fst (?key e) \<in> node_id ` set nodes"
      using phantomsOf_keys by (fastforce simp: computePhantoms_iff)
    ultimately show ?thesis using nid by fastforce
  qed
  show ?case using h r dj by simp
qed

text \<open>
  Claim C5. An edge is in the result of \<^verbatim>\<open>computePhantomsForYear\<close> exactly when it is the
  edge of a node whose author is active and of a category of that author's counts with
  a strictly positive count, other than the author's main subfield and present in the
  cluster-centre map; so every edge refers to a subfield of the cluster-centre map, to
  an active author and not to the author's main subfield. For nodes with distinct ids
  whose authors carry the cache built at load, no pair of node id and subfield occurs
  twice: there is exactly one edge for each such pair.
\<close>

theorem computePhantomsForYear_edges:
  "(\<forall>e. e \<in> set (computePhantomsForYear nodes ccm year m) \<longleftrightarrow>
       (\<exists>n \<in> set nodes. \<exists>sf cnt c.
           isActiveBy (node_author n) year m
         \<and> (sf, cnt) \<in> set (countsFor (node_author n) year m) \<and> 0 < cnt
         \<and> sf \<noteq> mainSubfieldFor (node_author n) year m
         \<and> map_of ccm sf = Some c
         \<and> e = \<lparr> ph_parent = n, ph_subfield = sf, ph_count = cnt,
                  ph_tx = center_x c, ph_ty = center_y c \<rparr>))
   \<and> (\<forall>e \<in> set (computePhantomsForYear nodes ccm year m).
         ph_subfield e \<in> fst ` set ccm
       \<and> isActiveBy (node_author (ph_parent e)) year m
       \<and> ph_subfield e \<noteq> mainSubfieldFor (node_author (ph_parent e)) year m
       \<and> 0 < ph_count e)
   \<and> (distinct (map node_id nodes) \<and> (\<forall>n \<in> set nodes. cached (node_author n)) \<longrightarrow>
        distinct (map (\<lambda>e. (node_id (ph_parent e), ph_subfield e))
           (computePhantomsForYear nodes ccm year m)))"
proof -
  have a: "\<And>e. e \<in> set (computePhantomsForYear nodes ccm year m) \<longleftrightarrow>
       (\<exists>n \<in> set nodes. \<exists>sf cnt c.
           isActiveBy (node_author n) year m
         \<and> (sf, cnt) \<in> set (countsFor (node_author n) year m) \<and> 0 < cnt
         \<and> sf \<noteq> mainSubfieldFor (node_author n) year m
         \<and> map_of ccm sf = Some c
         \<and> e = \<lparr> ph_parent = n, ph_subfield = sf, ph_count = cnt,
                  ph_tx = center_x c, ph_ty = center_y c \<rparr>)"
    unfolding computePhantoms_iff phantomsOf_iff by blast
  have b: "\<forall>e \<in> set (computePhantomsForYear nodes ccm year m).
         ph_subfield e \<in> fst ` set ccm
       \<and> isActiveBy (node_author (ph_parent e)) year m
       \<and> ph_subfield e \<noteq> mainSubfieldFor (node_author (ph_parent e)) year m
       \<and> 0 < ph_count e"
  proof
    fix e assume "e \<in> set (computePhantomsForYear nodes ccm year m)"
    then obtain n sf cnt c where n: "n \<in> set nodes" "isActiveBy (node_author n) year m"
      "0 < cnt" "sf \<noteq> mainSubfieldFor (node_author n) year m" "map_of ccm sf = Some c"
      and e: "e = \<lparr> ph_parent = n, ph_subfield = sf, ph_count = cnt,
                  ph_tx = center_x c, ph_ty = center_y c \<rparr>"
      unfolding a by blast
    have "sf \<in> fst ` set ccm" using n(5) by (meson domI dom_map_of_conv_image_fst[THEN equalityD1] subsetD)
    then show "ph_subfield e \<in> fst ` set ccm
       \<and> isActiveBy (node_author (ph_parent e)) year m
       \<and> ph_subfield e \<noteq> mainSubfieldFor (node_author (ph_parent e)) year m
       \<and> 0 < ph_count e"
      using n by (simp add: e)
  qed
  from a b distinct_computePhantoms[of nodes ccm year m] show ?thesis by blast
qed

theorem computePhantomsForYear_edges_witness:
  "distinct (map node_id [nodeOf authorA, nodeOf authorZ])
   \<and> cached (node_author (nodeOf authorA)) \<and> cached (node_author (nodeOf authorZ))
   \<and> computePhantomsForYear [nodeOf authorA, nodeOf authorZ] sampleCenters 2021 Entire =
       [\<lparr> ph_parent = nodeOf authorA, ph_subfield = ''Software'', ph_count = 5,
          ph_tx = 2, ph_ty = 3 \<rparr>]
   \<and> ''Software'' \<in> fst ` set sampleCenters
   \<and> isActiveBy authorA 2021 Entire
   \<and> ''Software'' \<noteq> mainSubfieldFor authorA 2021 Entire
   \<and> distinct (map (\<lambda>e. (node_id (ph_parent e), ph_subfield e))
        (computePhantomsForYear [nodeOf authorA, nodeOf authorZ] sampleCenters 2021 Entire))"
proof -
  have d: "distinct (map node_id [nodeOf authorA, nodeOf authorZ])"
    by (simp add: nodeOf_def authorA_def authorZ_def precompute_def rawAuthor_def)
  have c: "\<forall>n \<in> set [nodeOf authorA, nodeOf authorZ]. cached (node_author n)"
    by (simp add: nodeOf_def authorA_def authorZ_def cached_precompute)
  note T = computePhantomsForYear_edges[of "[nodeOf authorA, nodeOf authorZ]" sampleCenters 2021 Entire]
  have na: "node_author (nodeOf authorA) = authorA" by (simp add: nodeOf_def)
  have b: "''Software'' \<in> fst ` set sampleCenters \<and> isActiveBy authorA 2021 Entire
      \<and> ''Software'' \<noteq> mainSubfieldFor authorA 2021 Entire"
    using T[THEN conjunct2, THEN conjunct1] unfolding phantoms_A by (simp add: na)
  have e: "distinct (map (\<lambda>e. (node_id (ph_parent e), ph_subfield e))
        (computePhantomsForYear [nodeOf authorA, nodeOf authorZ] sampleCenters 2021 Entire))"
    by (rule T[THEN conjunct2, THEN conjunct2, THEN mp, OF conjI[OF d c]])
  from d c b e phantoms_A show ?thesis by simp
qed

section \<open>Opacity of phantom edges\<close>

lemma phantom_count_pos:
  "e \<in> set (computePhantomsForYear nodes ccm year m) \<Longrightarrow> 0 < ph_count e"
  by (auto simp: computePhantoms_iff phantomsOf_iff)

lemma updatePhantoms_unfold:
  assumes "updatePhantoms sp nodes ccm year m = (pd, links)" "pd \<noteq> []"
  shows "pd = computePhantomsForYear nodes ccm year m"
    and "links = map (\<lambda>d. (d, opacityScale (real_of_int (Max (ph_count ` set pd)))
                        (real_of_int (ph_count d)))) (if sp then pd else [])"
proof -
  show pd: "pd = computePhantomsForYear nodes ccm year m"
    using assms(1) by (simp add: updatePhantoms_def Let_def)
  from assms(2) obtain c cs where cs: "map ph_count pd = c # cs" by (cases pd) auto
  have "fold max cs c = Max (set (c # cs))" by (rule fold_max_Max)
  also have "\<dots> = Max (ph_count ` set pd)" by (simp only: cs[symmetric] set_map)
  finally have M: "fold max cs c = Max (ph_count ` set pd)" .
  show "links = map (\<lambda>d. (d, opacityScale (real_of_int (Max (ph_count ` set pd)))
                        (real_of_int (ph_count d)))) (if sp then pd else [])"
    using assms(1) cs M unfolding updatePhantoms_def Let_def pd[symmetric] by simp
qed

lemma opacity_bounds:
  fixes c M :: int
  assumes "0 < c" "c \<le> M"
  shows "opacityScale (real_of_int M) (real_of_int c) =
           0.01 + (real_of_int c / real_of_int M) * (0.30 - 0.01)"
    and "0.01 < opacityScale (real_of_int M) (real_of_int c)"
    and "opacityScale (real_of_int M) (real_of_int c) \<le> 0.30"
    and "c = M \<Longrightarrow> opacityScale (real_of_int M) (real_of_int c) = 0.30"
proof -
  have q: "0 < real_of_int c / real_of_int M" "real_of_int c / real_of_int M \<le> 1"
    using assms by simp_all
  show "opacityScale (real_of_int M) (real_of_int c) =
           0.01 + (real_of_int c / real_of_int M) * (0.30 - 0.01)"
    by (simp add: opacityScale_def)
  show "0.01 < opacityScale (real_of_int M) (real_of_int c)"
    using q(1) by (simp add: opacityScale_def)
  have "(real_of_int c / real_of_int M) * (0.30 - 0.01) \<le> 1 * (0.30 - 0.01)"
    by (rule mult_right_mono[OF q(2)]) simp
  then show "opacityScale (real_of_int M) (real_of_int c) \<le> 0.30"
    by (simp add: opacityScale_def)
  show "c = M \<Longrightarrow> opacityScale (real_of_int M) (real_of_int c) = 0.30"
    using assms by (simp add: opacityScale_def)
qed

lemma opacity_differs:
  fixes c M M' :: int
  assumes "0 < c" "0 < M" "0 < M'" "M \<noteq> M'"
  shows "opacityScale (real_of_int M) (real_of_int c) \<noteq> opacityScale (real_of_int M') (real_of_int c)"
proof
  assume "opacityScale (real_of_int M) (real_of_int c) = opacityScale (real_of_int M') (real_of_int c)"
  then have "real_of_int c / real_of_int M = real_of_int c / real_of_int M'"
    by (simp add: opacityScale_def)
  then have "real_of_int M = real_of_int M'"
    using assms(1,2,3) by (simp add: frac_eq_eq)
  with assms(4) show False by simp
qed

lemma Max_count_pos:
  assumes "pd = computePhantomsForYear nodes ccm year m" "pd \<noteq> []"
  shows "0 < Max (ph_count ` set pd)" and "\<forall>d \<in> set pd. 0 < ph_count d \<and> ph_count d \<le> Max (ph_count ` set pd)"
proof -
  have "Max (ph_count ` set pd) \<in> ph_count ` set pd"
    by (rule Max_in) (use assms(2) in simp_all)
  then show "0 < Max (ph_count ` set pd)"
    using phantom_count_pos[of _ nodes ccm year m] assms(1) by auto
  show "\<forall>d \<in> set pd. 0 < ph_count d \<and> ph_count d \<le> Max (ph_count ` set pd)"
    using phantom_count_pos[of _ nodes ccm year m] assms(1) by auto
qed

text \<open>
  Claim C6. When the phantom data of a frame is not empty, every drawn line gets the
  opacity \<open>0.01 + (count / maxCount) * (0.30 - 0.01)\<close>, with \<open>maxCount\<close> the greatest
  count among the phantoms of that frame; the opacity lies in \<open>(0.01, 0.30]\<close> and is
  exactly \<open>0.30\<close> for a count equal to \<open>maxCount\<close>. In another frame whose greatest
  count differs, an edge of the same count gets a different opacity.
\<close>

theorem updatePhantoms_opacity:
  assumes "updatePhantoms sp nodes ccm year m = (phantomData, links)"
    and "phantomData \<noteq> []"
  shows "phantomData = computePhantomsForYear nodes ccm year m
    \<and> map fst links = (if sp then phantomData else [])
    \<and> 0 < Max (ph_count ` set phantomData)
    \<and> (\<forall>(d, opac) \<in> set links.
          opac = 0.01 + (real_of_int (ph_count d) /
                           real_of_int (Max (ph_count ` set phantomData))) * (0.30 - 0.01)
        \<and> 0.01 < opac \<and> opac \<le> 0.30
        \<and> (ph_count d = Max (ph_count ` set phantomData) \<longrightarrow> opac = 0.30))
    \<and> (\<forall>sp' nodes' ccm' year' m' phantomData' links'.
          updatePhantoms sp' nodes' ccm' year' m' = (phantomData', links')
        \<and> phantomData' \<noteq> []
        \<and> Max (ph_count ` set phantomData') \<noteq> Max (ph_count ` set phantomData)
        \<longrightarrow> (\<forall>(d, opac) \<in> set links. \<forall>(d', opac') \<in> set links'.
               ph_count d = ph_count d' \<longrightarrow> opac \<noteq> opac'))"
proof -
  let ?M = "Max (ph_count ` set phantomData)"
  note u = updatePhantoms_unfold[OF assms]
  note mp = Max_count_pos[OF u(1) assms(2)]
  have in_links: "\<And>d opac. (d, opac) \<in> set links \<Longrightarrow>
      d \<in> set phantomData \<and> opac = opacityScale (real_of_int ?M) (real_of_int (ph_count d))"
    unfolding u(2) by (auto split: if_splits)
  have p2: "map fst links = (if sp then phantomData else [])"
    unfolding u(2) by (simp add: comp_def)
  have p4: "\<forall>(d, opac) \<in> set links.
          opac = 0.01 + (real_of_int (ph_count d) / real_of_int ?M) * (0.30 - 0.01)
        \<and> 0.01 < opac \<and> opac \<le> 0.30
        \<and> (ph_count d = ?M \<longrightarrow> opac = 0.30)"
  proof (clarify, intro conjI impI)
    fix d opac assume "(d, opac) \<in> set links"
    from in_links[OF this] mp(2) have d: "0 < ph_count d" "ph_count d \<le> ?M"
      and o: "opac = opacityScale (real_of_int ?M) (real_of_int (ph_count d))" by auto
    note ob = opacity_bounds[OF d]
    show "opac = 0.01 + (real_of_int (ph_count d) / real_of_int ?M) * (0.30 - 0.01)"
      unfolding o by (rule ob(1))
    show "0.01 < opac" unfolding o by (rule ob(2))
    show "opac \<le> 0.30" unfolding o by (rule ob(3))
    show "opac = 0.30" if "ph_count d = ?M" unfolding o by (rule ob(4)[OF that])
  qed
  have p5: "\<forall>sp' nodes' ccm' year' m' phantomData' links'.
          updatePhantoms sp' nodes' ccm' year' m' = (phantomData', links')
        \<and> phantomData' \<noteq> []
        \<and> Max (ph_count ` set phantomData') \<noteq> ?M
        \<longrightarrow> (\<forall>(d, opac) \<in> set links. \<forall>(d', opac') \<in> set links'.
               ph_count d = ph_count d' \<longrightarrow> opac \<noteq> opac')"
  proof (intro allI impI)
    fix sp' nodes' ccm' year' m' phantomData' links'
    assume H: "updatePhantoms sp' nodes' ccm' year' m' = (phantomData', links')
        \<and> phantomData' \<noteq> []
        \<and> Max (ph_count ` set phantomData') \<noteq> ?M"
    then have a: "updatePhantoms sp' nodes' ccm' year' m' = (phantomData', links')"
      "phantomData' \<noteq> []" and ne: "Max (ph_count ` set phantomData') \<noteq> ?M"
      by simp_all
    note u' = updatePhantoms_unfold[OF a]
    note mp' = Max_count_pos[OF u'(1) a(2)]
    have "opac \<noteq> opac'"
      if l: "(d, opac) \<in> set links" "(d', opac') \<in> set links'"
        and same: "ph_count d = ph_count d'" for d opac d' opac'
    proof -
      have o': "opac' = opacityScale (real_of_int (Max (ph_count ` set phantomData')))
          (real_of_int (ph_count d'))"
        using l(2) unfolding u'(2) by (auto split: if_splits)
      from in_links[OF l(1)] mp(2) have d: "0 < ph_count d"
        and o: "opac = opacityScale (real_of_int ?M) (real_of_int (ph_count d))" by auto
      from opacity_differs[OF d mp(1) mp'(1) ne[symmetric]] o o' same show ?thesis by simp
    qed
    then show "\<forall>(d, opac) \<in> set links. \<forall>(d', opac') \<in> set links'.
               ph_count d = ph_count d' \<longrightarrow> opac \<noteq> opac'"
      by blast
  qed
  from u(1) p2 mp(1) p4 p5 show ?thesis by blast
qed

theorem updatePhantoms_opacity_witness:
  "updatePhantoms True [nodeOf authorA] sampleCenters 2021 Entire =
     ([\<lparr> ph_parent = nodeOf authorA, ph_subfield = ''Software'', ph_count = 5,
          ph_tx = 2, ph_ty = 3 \<rparr>],
      [(\<lparr> ph_parent = nodeOf authorA, ph_subfield = ''Software'', ph_count = 5,
          ph_tx = 2, ph_ty = 3 \<rparr>, 0.30)])
   \<and> updatePhantoms True [nodeOf authorA, nodeOf authorB] sampleCenters 2021 Entire =
     ([\<lparr> ph_parent = nodeOf authorA, ph_subfield = ''Software'', ph_count = 5,
          ph_tx = 2, ph_ty = 3 \<rparr>,
       \<lparr> ph_parent = nodeOf authorB, ph_subfield = ''Software'', ph_count = 10,
          ph_tx = 2, ph_ty = 3 \<rparr>],
      [(\<lparr> ph_parent = nodeOf authorA, ph_subfield = ''Software'', ph_count = 5,
          ph_tx = 2, ph_ty = 3 \<rparr>, 0.155),
       (\<lparr> ph_parent = nodeOf authorB, ph_subfield = ''Software'', ph_count = 10,
          ph_tx = 2, ph_ty = 3 \<rparr>, 0.30)])
   \<and> (0.30::real) \<noteq> 0.155"
proof -
  let ?eA = "\<lparr> ph_parent = nodeOf authorA, ph_subfield = ''Software'', ph_count = 5,
          ph_tx = 2, ph_ty = 3 \<rparr>"
  let ?eB = "\<lparr> ph_parent = nodeOf authorB, ph_subfield = ''Software'', ph_count = 10,
          ph_tx = 2, ph_ty = 3 \<rparr>"
  have f1: "updatePhantoms True [nodeOf authorA] sampleCenters 2021 Entire =
      ([?eA], [(?eA, 0.30)])"
    unfolding updatePhantoms_def Let_def phantoms_one by (simp add: opacityScale_def)
  have f2: "updatePhantoms True [nodeOf authorA, nodeOf authorB] sampleCenters 2021 Entire =
      ([?eA, ?eB], [(?eA, 0.155), (?eB, 0.30)])"
    unfolding updatePhantoms_def Let_def phantoms_two by (simp add: opacityScale_def)
  have ne1: "[?eA] \<noteq> []" and ne2: "[?eA, ?eB] \<noteq> []" by simp_all
  have mx: "Max (ph_count ` set [?eA, ?eB]) \<noteq> Max (ph_count ` set [?eA])" by simp
  note T = updatePhantoms_opacity[OF f1 ne1]
  have "\<forall>(d, opac) \<in> set [(?eA, 0.30::real)]. \<forall>(d', opac') \<in> set [(?eA, 0.155::real), (?eB, 0.30)].
      ph_count d = ph_count d' \<longrightarrow> opac \<noteq> opac'"
    using T[THEN conjunct2, THEN conjunct2, THEN conjunct2, THEN conjunct2, THEN spec,
        THEN spec, THEN spec, THEN spec, THEN spec, THEN spec, THEN spec, THEN mp,
        OF conjI[OF f2 conjI[OF ne2 mx]]] .
  then have "(0.30::real) \<noteq> 0.155" by simp
  with f1 f2 show ?thesis by blast
qed

section \<open>Flow aggregation\<close>

text \<open>
  The delimiter splits a key whose two names contain no dash into these names, and a key
  without dashes stays in one part.
\<close>

lemma splitDashes_other:
  "CHR ''-'' \<noteq> a \<Longrightarrow> splitDashes cur (a # xs) = splitDashes (a # cur) xs"
  by (cases xs; cases "tl xs") auto

lemma splitDashes_plain: "CHR ''-'' \<notin> set p \<Longrightarrow> splitDashes cur p = [rev cur @ p]"
  by (induction p arbitrary: cur) (simp_all add: splitDashes_other)

lemma splitDashes_pair:
  "CHR ''-'' \<notin> set s \<Longrightarrow> CHR ''-'' \<notin> set f \<Longrightarrow>
     splitDashes cur (s @ ''---'' @ f) = [rev cur @ s, f]"
  by (induction s arbitrary: cur) (simp_all add: splitDashes_other splitDashes_plain)

lemma countAt_addPositive:
  "distinct (map fst cs) \<Longrightarrow> countAt (addPositive t cs) p = countAt t p + max 0 (countAt cs p)"
proof (induction cs arbitrary: t)
  case Nil
  show ?case by (simp add: countAt_Nil)
next
  case (Cons e cs)
  obtain pair v where e: "e = (pair, v)" by (cases e)
  from Cons.prems e have d: "distinct (map fst cs)" and nin: "pair \<notin> fst ` set cs" by auto
  note absent = countAt_absent[OF nin]
  show ?case
  proof (cases "v \<le> 0")
    case True
    then show ?thesis
      using Cons.IH[OF d, of t] absent by (simp add: e countAt_Cons)
  next
    case False
    then show ?thesis
      using Cons.IH[OF d, of "AList.update pair (countAt t pair + v) t"] absent
      by (simp add: e countAt_Cons countAt_update)
  qed
qed

lemma distinct_addPositive:
  "distinct (map fst t) \<Longrightarrow> distinct (map fst (addPositive t cs))"
  by (induction t cs rule: addPositive.induct) (auto simp: distinct_update)

lemma positive_addPositive:
  "\<forall>v \<in> snd ` set t. 0 < v \<Longrightarrow> \<forall>v \<in> snd ` set (addPositive t cs). 0 < v"
proof (induction t cs rule: addPositive.induct)
  case (1 t)
  then show ?case by simp
next
  case (2 t pair v rest)
  show ?case
  proof (cases "v \<le> 0")
    case True
    with 2 show ?thesis by simp
  next
    case False
    have "0 < countAt t pair + v" using countAt_nonneg[OF 2(3), of pair] False by simp
    then have "\<forall>x \<in> snd ` set (AList.update pair (countAt t pair + v) t). 0 < x"
      using 2(3) set_update_subset[of pair "countAt t pair + v" t] by fastforce
    with 2(2)[OF False] False show ?thesis by simp
  qed
qed

lemma countAt_pairTotalsLoop:
  "\<forall>a \<in> set auths. cached a \<Longrightarrow>
     countAt (pairTotalsLoop auths y m t) p =
       countAt t p + (\<Sum>a\<leftarrow>auths. max 0 (countAt (sankeyPairs a y m) p))"
proof (induction auths arbitrary: t)
  case Nil
  show ?case by simp
next
  case (Cons a auths)
  from Cons.prems have c: "cached a" and r: "\<forall>x \<in> set auths. cached x" by simp_all
  show ?case
    using Cons.IH[OF r, of "addPositive t (sankeyPairs a y m)"]
      countAt_addPositive[OF distinct_sankeyPairs[OF c, of y m], of t p]
    by simp
qed

lemma distinct_pairTotalsLoop:
  "distinct (map fst t) \<Longrightarrow> distinct (map fst (pairTotalsLoop auths y m t))"
  by (induction auths y m t rule: pairTotalsLoop.induct) (auto simp: distinct_addPositive)

lemma positive_pairTotalsLoop:
  "\<forall>v \<in> snd ` set t. 0 < v \<Longrightarrow> \<forall>v \<in> snd ` set (pairTotalsLoop auths y m t). 0 < v"
proof (induction auths y m t rule: pairTotalsLoop.induct)
  case (1 y m t)
  then show ?case by simp
next
  case (2 a rest y m t)
  from 2(1)[OF positive_addPositive[OF 2(2)]] show ?case by simp
qed

lemma buildLinks_eq:
  "buildLinks totals =
     map (\<lambda>(p, c). \<lparr> link_source = splitDashes [] p ! 0, link_target = splitDashes [] p ! 1,
                      link_value = c \<rparr>)
       (filter (\<lambda>(p, c). 2 \<le> length (splitDashes [] p)) totals)"
proof (induction totals)
  case Nil
  show ?case by simp
next
  case (Cons e totals)
  obtain p c where e: "e = (p, c)" by (cases e)
  show ?case
  proof (cases "splitDashes [] p")
    case Nil
    then show ?thesis using Cons.IH by (simp add: e)
  next
    case (Cons s r1)
    note outer = Cons
    show ?thesis
    proof (cases r1)
      case Nil
      then show ?thesis using Cons.IH outer by (simp add: e)
    next
      case (Cons f r2)
      then show ?thesis using \<open>buildLinks totals = _\<close> outer by (simp add: e)
    qed
  qed
qed

lemma set_nodesLoop:
  "set (nodesLoop links acc) = set acc \<union> link_source ` set links \<union> link_target ` set links"
  by (induction links acc rule: nodesLoop.induct) (auto simp: setAdd_def)

lemma distinct_nodesLoop: "distinct acc \<Longrightarrow> distinct (nodesLoop links acc)"
  by (induction links acc rule: nodesLoop.induct) (auto simp: setAdd_def)

lemma updateSankey_links:
  "sankey_links (updateSankey auths y m) = buildLinks (pairTotalsLoop auths y m [])"
  by (simp add: updateSankey_def Let_def cleared_def)

lemma updateSankey_nodes:
  "sankey_nodes (updateSankey auths y m) =
     nodesLoop (sankey_links (updateSankey auths y m)) []"
  by (simp add: updateSankey_def Let_def cleared_def)

text \<open>
  Claim C7, as amended. For a population of authors carrying the cache built at load,
  \<^verbatim>\<open>pairTotals\<close> maps each pair key to the sum over the authors of the positive part of
  the author's count for that key, which is the plain sum when no count is negative;
  the links are, in order, one per pair key that splits at \<^verbatim>\<open>---\<close> into at least two
  parts, from the first part to the second, weighted by the total, and the other keys
  are dropped; the nodes are exactly the sources and targets of the links, each name
  once; no totals give the cleared (empty) graph; and the graph is bipartite between
  subfields and fields exactly when no name is both the first part of a surviving key
  and the second part of a surviving key.
\<close>

theorem updateSankey_graph:
  assumes "\<forall>a \<in> set auths. cached a"
  shows
   "(\<forall>p. countAt (pairTotalsLoop auths y m []) p =
          (\<Sum>a\<leftarrow>auths. max 0 (countAt (sankeyPairs a y m) p)))
  \<and> ((\<forall>a \<in> set auths. \<forall>v \<in> snd ` set (sankeyPairs a y m). 0 \<le> v) \<longrightarrow>
       (\<forall>p. countAt (pairTotalsLoop auths y m []) p =
          (\<Sum>a\<leftarrow>auths. countAt (sankeyPairs a y m) p)))
  \<and> distinct (map fst (pairTotalsLoop auths y m []))
  \<and> (\<forall>v \<in> snd ` set (pairTotalsLoop auths y m []). 0 < v)
  \<and> sankey_links (updateSankey auths y m) =
       map (\<lambda>(p, c). \<lparr> link_source = splitDashes [] p ! 0, link_target = splitDashes [] p ! 1,
                        link_value = c \<rparr>)
         (filter (\<lambda>(p, c). 2 \<le> length (splitDashes [] p)) (pairTotalsLoop auths y m []))
  \<and> set (sankey_nodes (updateSankey auths y m)) =
       link_source ` set (sankey_links (updateSankey auths y m))
       \<union> link_target ` set (sankey_links (updateSankey auths y m))
  \<and> distinct (sankey_nodes (updateSankey auths y m))
  \<and> (pairTotalsLoop auths y m [] = [] \<longrightarrow> updateSankey auths y m = cleared)
  \<and> (bipartite (updateSankey auths y m) \<longleftrightarrow>
       (\<lambda>(p, c). splitDashes [] p ! 0) `
          set (filter (\<lambda>(p, c). 2 \<le> length (splitDashes [] p)) (pairTotalsLoop auths y m []))
       \<inter> (\<lambda>(p, c). splitDashes [] p ! 1) `
          set (filter (\<lambda>(p, c). 2 \<le> length (splitDashes [] p)) (pairTotalsLoop auths y m []))
       = {})"
proof -
  have t1: "\<forall>p. countAt (pairTotalsLoop auths y m []) p =
          (\<Sum>a\<leftarrow>auths. max 0 (countAt (sankeyPairs a y m) p))"
    using countAt_pairTotalsLoop[OF assms, of y m "[]"] by (simp add: countAt_Nil)
  have t2: "(\<forall>a \<in> set auths. \<forall>v \<in> snd ` set (sankeyPairs a y m). 0 \<le> v) \<longrightarrow>
       (\<forall>p. countAt (pairTotalsLoop auths y m []) p =
          (\<Sum>a\<leftarrow>auths. countAt (sankeyPairs a y m) p))"
  proof (intro impI allI)
    fix p assume h: "\<forall>a \<in> set auths. \<forall>v \<in> snd ` set (sankeyPairs a y m). 0 \<le> v"
    have "\<forall>a \<in> set auths. 0 \<le> countAt (sankeyPairs a y m) p"
      using h countAt_ge0 by blast
    from sum_list_max0[OF this] t1
    show "countAt (pairTotalsLoop auths y m []) p = (\<Sum>a\<leftarrow>auths. countAt (sankeyPairs a y m) p)"
      by simp
  qed
  have t3: "distinct (map fst (pairTotalsLoop auths y m []))"
    by (rule distinct_pairTotalsLoop) simp
  have t4: "\<forall>v \<in> snd ` set (pairTotalsLoop auths y m []). 0 < v"
    by (rule positive_pairTotalsLoop) simp
  have t5: "sankey_links (updateSankey auths y m) =
       map (\<lambda>(p, c). \<lparr> link_source = splitDashes [] p ! 0, link_target = splitDashes [] p ! 1,
                        link_value = c \<rparr>)
         (filter (\<lambda>(p, c). 2 \<le> length (splitDashes [] p)) (pairTotalsLoop auths y m []))"
    by (simp only: updateSankey_links buildLinks_eq)
  have t6: "set (sankey_nodes (updateSankey auths y m)) =
       link_source ` set (sankey_links (updateSankey auths y m))
       \<union> link_target ` set (sankey_links (updateSankey auths y m))"
    by (subst updateSankey_nodes) (simp add: set_nodesLoop)
  have t7: "distinct (sankey_nodes (updateSankey auths y m))"
    by (subst updateSankey_nodes) (simp add: distinct_nodesLoop)
  have t8: "pairTotalsLoop auths y m [] = [] \<longrightarrow> updateSankey auths y m = cleared"
    by (simp add: updateSankey_def)
  have t9: "bipartite (updateSankey auths y m) \<longleftrightarrow>
       (\<lambda>(p, c). splitDashes [] p ! 0) `
          set (filter (\<lambda>(p, c). 2 \<le> length (splitDashes [] p)) (pairTotalsLoop auths y m []))
       \<inter> (\<lambda>(p, c). splitDashes [] p ! 1) `
          set (filter (\<lambda>(p, c). 2 \<le> length (splitDashes [] p)) (pairTotalsLoop auths y m []))
       = {}"
    unfolding bipartite_def t5
    by (simp add: comp_def case_prod_unfold image_image del: set_filter)
  from t1 t2 t3 t4 t5 t6 t7 t8 t9 show ?thesis by blast
qed

text \<open>
  Claim C7 as stated fails: nodes are identified by name only, so a pair key whose
  subfield and field carry the same name gives a single node with a link to itself,
  and the graph is not bipartite.
\<close>

theorem updateSankey_not_bipartite:
  "sankey_nodes (updateSankey [authorLoop] 2020 Year) = [''CS'']
   \<and> sankey_links (updateSankey [authorLoop] 2020 Year) =
       [\<lparr> link_source = ''CS'', link_target = ''CS'', link_value = 1 \<rparr>]
   \<and> \<not> bipartite (updateSankey [authorLoop] 2020 Year)"
proof -
  have g: "updateSankey [authorLoop] 2020 Year =
      \<lparr> sankey_nodes = [''CS''],
        sankey_links = [\<lparr> link_source = ''CS'', link_target = ''CS'', link_value = 1 \<rparr>],
        sankey_indexed = [(Some 0, Some 0, 1)] \<rparr>"
    by code_simp
  show ?thesis unfolding bipartite_def g by simp
qed

theorem updateSankey_graph_witness:
  "cached authorA \<and> cached authorS
   \<and> updateSankey [authorA] 2020 Year =
       \<lparr> sankey_nodes = [''AI'', ''CS'', ''Software''],
         sankey_links = [\<lparr> link_source = ''AI'', link_target = ''CS'', link_value = 5 \<rparr>,
                         \<lparr> link_source = ''Software'', link_target = ''CS'', link_value = 3 \<rparr>],
         sankey_indexed = [(Some 0, Some 1, 5), (Some 2, Some 1, 3)] \<rparr>
   \<and> updateSankey [authorA] 2019 Year = cleared
   \<and> countAt (pairTotalsLoop [authorA, authorS] 2020 Year []) ''Software---CS'' = 7
   \<and> set (sankey_nodes (updateSankey [authorA, authorS] 2020 Year)) = {''AI'', ''Software'', ''CS''}
   \<and> bipartite (updateSankey [authorA, authorS] 2020 Year)"
proof -
  have c: "\<forall>a \<in> set [authorA, authorS]. cached a"
    by (simp add: authorA_def authorS_def cached_precompute)
  have c1: "\<forall>a \<in> set [authorA]. cached a" using c by simp
  have nn: "\<forall>a \<in> set [authorA, authorS]. \<forall>v \<in> snd ` set (sankeyPairs a 2020 Year). 0 \<le> v"
    by (simp add: pairs_A_2020 pairs_S_2020)
  note T = updateSankey_graph[OF c, of 2020 Year]
  note T0 = updateSankey_graph[OF c1, of 2019 Year]
  have e: "updateSankey [authorA] 2019 Year = cleared"
    using T0 totals_A_2019 by blast
  have s: "countAt (pairTotalsLoop [authorA, authorS] 2020 Year []) ''Software---CS'' = 7"
    using T[THEN conjunct2, THEN conjunct1, THEN mp, OF nn, THEN spec, of "''Software---CS''"]
    by (simp add: pairs_A_2020 pairs_S_2020 countAt_def)
  have n: "set (sankey_nodes (updateSankey [authorA, authorS] 2020 Year)) = {''AI'', ''Software'', ''CS''}"
    using T[THEN conjunct2, THEN conjunct2, THEN conjunct2, THEN conjunct2, THEN conjunct2,
        THEN conjunct1]
    unfolding links_AS_2020 by auto
  have tot: "pairTotalsLoop [authorA, authorS] 2020 Year [] =
      [(''AI---CS'', 5), (''Software---CS'', 7), (''Loose'', 2)]"
    by code_simp
  have sp: "splitDashes [] ''AI---CS'' = [''AI'', ''CS'']"
    "splitDashes [] ''Software---CS'' = [''Software'', ''CS'']"
    "splitDashes [] ''Loose'' = [''Loose'']"
    by code_simp+
  have b: "bipartite (updateSankey [authorA, authorS] 2020 Year)"
    using T[THEN conjunct2, THEN conjunct2, THEN conjunct2, THEN conjunct2, THEN conjunct2,
        THEN conjunct2, THEN conjunct2, THEN conjunct2]
    unfolding tot by (simp add: sp)
  from c sankey_A_2020 e s n b show ?thesis by simp
qed

section \<open>Group metrics\<close>

text \<open>
  Claim C8. For a population of one author, \<^verbatim>\<open>groupInterdisciplinarity\<close> with field type
  \<^verbatim>\<open>'subfield'\<close> equals the \<^verbatim>\<open>interdisciplinarity\<close> of that author at the same year and
  mode: aggregating the counts of one author into an empty object gives the same object.
\<close>

theorem groupInterdisciplinarity_single:
  "groupInterdisciplinarity [precompute a] year m Subfield =
     interdisciplinarity (precompute a) year m"
proof -
  have "addCounts [] (countsFor (precompute a) year m) = countsFor (precompute a) year m"
    using addCounts_fresh[OF distinct_countsFor[OF cached_precompute], of "[]" a year m]
    by simp
  then show ?thesis
    by (simp add: groupInterdisciplinarity_def interdisciplinarity_def)
qed

lemma aggCountsLoop_zero:
  "\<forall>v \<in> snd ` set agg. v = 0 \<Longrightarrow>
   \<forall>a \<in> set authors. \<forall>v \<in> snd ` set (if ft = Subfield then countsFor a year m
       else countsForFields a year m). v = 0 \<Longrightarrow>
   \<forall>v \<in> snd ` set (aggCountsLoop ft year m authors agg). v = 0"
proof (induction authors arbitrary: agg)
  case Nil
  then show ?case by simp
next
  case (Cons a authors)
  have "\<forall>v \<in> snd ` set (addCounts agg (if ft = Subfield then countsFor a year m
       else countsForFields a year m)). v = 0"
    by (rule addCounts_zero) (use Cons.prems in simp_all)
  from Cons.IH[OF this] Cons.prems(2) show ?case by simp
qed

text \<open>
  Claim C10. \<^verbatim>\<open>groupInterdisciplinarity\<close> returns exactly zero for the empty population,
  when no category was aggregated, when every aggregated count is zero, and hence when
  every count of every author is zero; this holds for both field types.
\<close>

theorem groupInterdisciplinarity_zero:
  "groupInterdisciplinarity [] year m ft = 0
   \<and> (aggCountsLoop ft year m authors [] = [] \<longrightarrow>
        groupInterdisciplinarity authors year m ft = 0)
   \<and> ((\<forall>v \<in> snd ` set (aggCountsLoop ft year m authors []). v = 0) \<longrightarrow>
        groupInterdisciplinarity authors year m ft = 0)
   \<and> ((\<forall>a \<in> set authors. \<forall>v \<in> snd ` set (if ft = Subfield then countsFor a year m
          else countsForFields a year m). v = 0) \<longrightarrow>
        groupInterdisciplinarity authors year m ft = 0)"
proof -
  have z: "(\<forall>v \<in> snd ` set (aggCountsLoop ft year m authors []). v = 0) \<Longrightarrow>
        groupInterdisciplinarity authors year m ft = 0"
  proof -
    assume "\<forall>v \<in> snd ` set (aggCountsLoop ft year m authors []). v = 0"
    then have "filter (\<lambda>v. 0 < v) (map snd (aggCountsLoop ft year m authors [])) = []"
      by (auto simp: filter_empty_conv)
    then show ?thesis by (simp add: groupInterdisciplinarity_def)
  qed
  have a: "groupInterdisciplinarity [] year m ft = 0"
    by (simp add: groupInterdisciplinarity_def)
  have b: "aggCountsLoop ft year m authors [] = [] \<longrightarrow>
        groupInterdisciplinarity authors year m ft = 0"
    by (simp add: groupInterdisciplinarity_def)
  have d: "(\<forall>a \<in> set authors. \<forall>v \<in> snd ` set (if ft = Subfield then countsFor a year m
          else countsForFields a year m). v = 0) \<longrightarrow>
        groupInterdisciplinarity authors year m ft = 0"
  proof
    assume h: "\<forall>a \<in> set authors. \<forall>v \<in> snd ` set (if ft = Subfield then countsFor a year m
          else countsForFields a year m). v = 0"
    show "groupInterdisciplinarity authors year m ft = 0"
      by (rule z, rule aggCountsLoop_zero[OF _ h]) simp
  qed
  from a b d z show ?thesis by blast
qed

theorem groupInterdisciplinarity_zero_witness:
  "groupInterdisciplinarity [authorZ] 2020 Year Subfield = 0
   \<and> groupInterdisciplinarity [authorZ, authorS] 2019 Year External = 0
   \<and> groupInterdisciplinarity [authorZ] 2020 Entire External = 0"
proof -
  have h1: "\<forall>a \<in> set [authorZ]. \<forall>v \<in> snd ` set (if Subfield = Subfield
      then countsFor a 2020 Year else countsForFields a 2020 Year). v = 0"
    by (simp add: authorZ_2020)
  have h2: "aggCountsLoop External 2019 Year [authorZ, authorS] [] = []"
    by code_simp
  have h3: "\<forall>v \<in> snd ` set (aggCountsLoop External 2020 Entire [authorZ] []). v = 0"
    by (simp add: authorZ_fields)
  show ?thesis
    using groupInterdisciplinarity_zero[of 2020 Year Subfield "[authorZ]"]
      groupInterdisciplinarity_zero[of 2019 Year External "[authorZ, authorS]"]
      groupInterdisciplinarity_zero[of 2020 Entire External "[authorZ]"]
      h1 h2 h3
    by blast
qed

section \<open>Filters\<close>

lemma checksLoop_NaN:
  "(op, NaN, Typed t) \<in> set checks \<Longrightarrow> \<not> checksLoop checks"
proof (induction checks rule: checksLoop.induct)
  case 1
  then show ?case by simp
next
  case (2 op' val rest)
  then show ?case by auto
next
  case (3 op' val num rest)
  show ?case
  proof (cases "(op, NaN, Typed t) = (op', val, Typed num)")
    case True
    then show ?thesis by (cases op') simp_all
  next
    case False
    with 3 show ?thesis by auto
  qed
qed

text \<open>
  Claim C9. An author one of whose metrics (h-index, i10-index, works count, cited-by
  count) is \<^verbatim>\<open>NaN\<close> is rejected by the filter callback, and so is absent from the
  filtered population, as soon as the filter box of that metric is not blank, whatever
  the operator and the threshold are.
\<close>

theorem applyFilters_rejects_NaN:
  assumes "(hindex a = NaN \<and> hNum f \<noteq> Blank)
         \<or> (i10index a = NaN \<and> i10Num f \<noteq> Blank)
         \<or> (works_count a = NaN \<and> worksNum f \<noteq> Blank)
         \<or> (cited_by_count a = NaN \<and> citedNum f \<noteq> Blank)"
  shows "\<not> keepAuthor f a \<and> a \<notin> set (applyFilters f authorsRaw)"
proof -
  let ?checks = "[(hOp f, hindex a, hNum f), (i10Op f, i10index a, i10Num f),
      (worksOp f, works_count a, worksNum f), (citedOp f, cited_by_count a, citedNum f)]"
  have typed: "\<And>x. x \<noteq> Blank \<Longrightarrow> \<exists>t. x = Typed t"
    by (case_tac x) simp_all
  from assms have "\<exists>op t. (op, NaN, Typed t) \<in> set ?checks"
  proof (elim disjE conjE)
    assume "hindex a = NaN" "hNum f \<noteq> Blank"
    then show ?thesis using typed[of "hNum f"] by fastforce
  next
    assume "i10index a = NaN" "i10Num f \<noteq> Blank"
    then show ?thesis using typed[of "i10Num f"] by fastforce
  next
    assume "works_count a = NaN" "worksNum f \<noteq> Blank"
    then show ?thesis using typed[of "worksNum f"] by fastforce
  next
    assume "cited_by_count a = NaN" "citedNum f \<noteq> Blank"
    then show ?thesis using typed[of "citedNum f"] by fastforce
  qed
  then obtain op t where "(op, NaN, Typed t) \<in> set ?checks" by blast
  then have "\<not> checksLoop ?checks" by (rule checksLoop_NaN)
  then have "\<not> keepAuthor f a" by (simp add: keepAuthor_def)
  then show ?thesis by (simp add: applyFilters_def)
qed

theorem applyFilters_rejects_NaN_witness:
  "hindex authorZ = NaN \<and> hNum (noFilters\<lparr> hNum := Typed (Num 0) \<rparr>) \<noteq> Blank
   \<and> \<not> keepAuthor (noFilters\<lparr> hNum := Typed (Num 0) \<rparr>) authorZ
   \<and> authorZ \<notin> set (applyFilters (noFilters\<lparr> hNum := Typed (Num 0) \<rparr>) [authorA, authorZ])
   \<and> \<not> keepAuthor (noFilters\<lparr> citedOp := Le, citedNum := Typed (Num 100) \<rparr>) authorZ
   \<and> \<not> keepAuthor (noFilters\<lparr> worksOp := Eq, worksNum := Typed NaN \<rparr>) authorZ
   \<and> keepAuthor noFilters authorZ"
proof -
  have m: "hindex authorZ = NaN" "cited_by_count authorZ = NaN" "works_count authorZ = NaN"
    by (simp_all add: authorZ_def precompute_def rawAuthor_def)
  have k: "keepAuthor noFilters authorZ"
    by (simp add: keepAuthor_def noFilters_def)
  show ?thesis
    using applyFilters_rejects_NaN[of authorZ "noFilters\<lparr> hNum := Typed (Num 0) \<rparr>" "[authorA, authorZ]"]
      applyFilters_rejects_NaN[of authorZ "noFilters\<lparr> citedOp := Le, citedNum := Typed (Num 100) \<rparr>" "[]"]
      applyFilters_rejects_NaN[of authorZ "noFilters\<lparr> worksOp := Eq, worksNum := Typed NaN \<rparr>" "[]"]
      m k
    by simp
qed

end
